theory Spec2Isabelle
  imports Main
begin

unbundle bit_operations_syntax

section \<open>Core files: notes, mappings, auxiliary vector, stack environment\<close>

text \<open>
  A shallow embedding of \<^verbatim>\<open>pwnlib/elf/corefile.py\<close>. Python 2 byte strings are
  \<^typ>\<open>string\<close> (a list of 8-bit characters), Python integers are \<^typ>\<open>int\<close> (or
  \<^typ>\<open>nat\<close> for file offsets and unsigned header words, which are never negative),
  an exception is the \<open>Inl\<close> branch of a sum.
\<close>

subsection \<open>Exceptions\<close>

datatype error =
    ELFParseError     \<comment> \<open>\<^verbatim>\<open>struct_parse\<close>: the stream ends inside the note header\<close>
  | ArrayError        \<comment> \<open>\<^verbatim>\<open>CString('').parse\<close>: no terminator in the data\<close>
  | EOFError          \<comment> \<open>\<^verbatim>\<open>tube\<close>: the receive buffer is exhausted\<close>
  | ValueError        \<comment> \<open>memory read at an address without backing; buffer too small\<close>
  | IndexError
  | AssertionError
  | AttributeError
  | PwnlibException   \<comment> \<open>\<^verbatim>\<open>log.error\<close>\<close>

subsection \<open>Words in byte strings\<close>

text \<open>
  Unsigned little-endian decoding: the byte order of both supported architectures, and
  the default of \<^verbatim>\<open>context\<close>, which the code leaves as it is.
\<close>

fun le_int :: "string \<Rightarrow> int" where
  "le_int [] = 0"
| "le_int (c # cs) = of_char c + 256 * le_int cs"

text \<open>The inverse, used to write down example files: \<open>n\<close> bytes of \<open>v\<close>.\<close>

fun le_bytes :: "nat \<Rightarrow> int \<Rightarrow> string" where
  "le_bytes 0 v = []"
| "le_bytes (Suc n) v = char_of (v mod 256) # le_bytes n (v div 256)"

text \<open>
  \<^verbatim>\<open>roundup(num, bits)\<close> of pyelftools:
  \<^verbatim>\<open>(num - 1 + (1 << bits)) & ~((1 << bits) - 1)\<close>.
\<close>

definition roundup :: "int \<Rightarrow> nat \<Rightarrow> int" where
  "roundup num bits = (num - 1 + push_bit bits 1) AND NOT (push_bit bits 1 - 1)"

subsection \<open>Program headers\<close>

datatype seg_type = PT_LOAD | PT_NOTE | PT_OTHER

record segment =
  p_type :: seg_type
  p_offset :: nat
  p_filesz :: nat
  p_vaddr :: int
  p_memsz :: int
  p_flags :: int

subsection \<open>Notes\<close>

record elf_note =
  n_namesz :: nat
  n_descsz :: nat
  n_type :: int
  n_offset :: nat
  n_name :: string
  n_desc :: string
  n_size :: nat

text \<open>\<^verbatim>\<open>Elf_Nhdr.sizeof()\<close>: three 32-bit words.\<close>

definition Nhdr_sizeof :: nat where
  "Nhdr_sizeof = 12"

text \<open>
  \<^verbatim>\<open>struct_parse(Elf_Nhdr, stream, stream_pos=offset)\<close>: seek to \<open>offset\<close> and read
  \<open>n_namesz\<close>, \<open>n_descsz\<close>, \<open>n_type\<close>; the parse fails when the stream holds fewer
  than twelve bytes there.
\<close>

definition struct_parse_Nhdr :: "string \<Rightarrow> nat \<Rightarrow> error + (nat \<times> nat \<times> int)" where
  "struct_parse_Nhdr stream pos =
     (if pos + Nhdr_sizeof \<le> length stream
      then Inr (nat (le_int (take 4 (drop pos stream))),
                nat (le_int (take 4 (drop (pos + 4) stream))),
                le_int (take 4 (drop (pos + 8) stream)))
      else Inl ELFParseError)"

text \<open>
  \<^verbatim>\<open>CString('').parse(data)\<close>: the characters before the first NUL; the parse
  fails when \<open>data\<close> has no NUL.
\<close>

definition CString_parse :: "string \<Rightarrow> error + string" where
  "CString_parse data =
     (if CHR 0x00 \<in> set data then Inr (takeWhile (\<lambda>c. c \<noteq> CHR 0x00) data)
      else Inl ArrayError)"

text \<open>
  One turn of the loop of \<^verbatim>\<open>iter_notes\<close>, from the header parse to the
  \<^verbatim>\<open>yield\<close>. \<^verbatim>\<open>stream.read(n)\<close> returns the bytes that are there, fewer than
  \<open>n\<close> at the end of the file: \<open>take n (drop pos stream)\<close>.
\<close>

definition read_note :: "string \<Rightarrow> nat \<Rightarrow> error + elf_note" where
  "read_note stream offset =
     (case struct_parse_Nhdr stream offset of
        Inl e \<Rightarrow> Inl e
      | Inr (namesz, descsz, ty) \<Rightarrow>
          (let offset1 = offset + Nhdr_sizeof;
               disk_namesz = nat (roundup (int namesz) 2)
           in case CString_parse (take disk_namesz (drop offset1 stream)) of
                Inl e \<Rightarrow> Inl e
              | Inr nm \<Rightarrow>
                  (let offset2 = offset1 + disk_namesz;
                       desc_data = take descsz (drop offset2 stream);
                       offset3 = offset2 + nat (roundup (int descsz) 2)
                   in Inr \<lparr>n_namesz = namesz, n_descsz = descsz, n_type = ty,
                           n_offset = offset, n_name = nm, n_desc = desc_data,
                           n_size = offset3 - offset\<rparr>)))"

lemma and_not_mask_int: "(x::int) AND NOT (mask n) = 2 ^ n * (x div 2 ^ n)"
proof -
  have "x AND NOT (mask n) = push_bit n (drop_bit n x)"
    by (rule bit_eqI) (auto simp: bit_simps)
  then show ?thesis
    by (simp add: push_bit_eq_mult drop_bit_eq_div)
qed

lemma roundup_eq: "roundup n b = 2 ^ b * ((n - 1 + 2 ^ b) div 2 ^ b)"
  using and_not_mask_int [of "n - 1 + 2 ^ b" b]
  by (simp add: roundup_def mask_eq_exp_minus_1 push_bit_eq_mult)

lemma roundup_2: "roundup n 2 = 4 * ((n + 3) div 4)"
  by (simp add: roundup_eq)

lemma read_note_size:
  assumes "read_note stream offset = Inr n"
  shows "n_offset n = offset"
    and "n_size n = Nhdr_sizeof + nat (roundup (int (n_namesz n)) 2)
                      + nat (roundup (int (n_descsz n)) 2)"
  using assms
  by (auto simp: read_note_def Let_def split: sum.splits prod.splits)

text \<open>
  The generator \<^verbatim>\<open>iter_notes(segment)\<close>, started at \<open>offset\<close>: the notes it yields,
  in order, and the exception that ends it, if one does. The consumer never touches
  the stream, so the generator's result does not depend on what is done with the notes.
\<close>

function iter_notes_from :: "string \<Rightarrow> nat \<Rightarrow> nat \<Rightarrow> elf_note list \<times> error option" where
  "iter_notes_from stream end offset =
     (if offset < end
      then (case read_note stream offset of
              Inl e \<Rightarrow> ([], Some e)
            | Inr n \<Rightarrow>
                (case iter_notes_from stream end (n_offset n + n_size n) of
                   (ns, r) \<Rightarrow> (n # ns, r)))
      else ([], None))"
  by pat_completeness auto
termination
  by (relation "measure (\<lambda>(stream, end, offset). end - offset)")
     (auto simp: read_note_size Nhdr_sizeof_def)

declare iter_notes_from.simps [simp del]

definition iter_notes :: "segment \<Rightarrow> string \<Rightarrow> elf_note list \<times> error option" where
  "iter_notes seg stream =
     iter_notes_from stream (p_offset seg + p_filesz seg) (p_offset seg)"

subsection \<open>Well-formed note ranges\<close>

text \<open>
  The image of one note in the file: the three header words, the name field and the
  descriptor field. It is well formed when the words fit 32 bits, both fields have
  their padded lengths and the name field holds its terminator.
\<close>

record raw_note =
  r_namesz :: nat
  r_descsz :: nat
  r_type :: int
  r_name_field :: string
  r_desc_field :: string

definition note_image :: "raw_note \<Rightarrow> string" where
  "note_image x =
     le_bytes 4 (int (r_namesz x)) @ le_bytes 4 (int (r_descsz x)) @ le_bytes 4 (r_type x)
       @ r_name_field x @ r_desc_field x"

definition well_formed_note :: "raw_note \<Rightarrow> bool" where
  "well_formed_note x \<longleftrightarrow>
     r_namesz x < 2 ^ 32 \<and> r_descsz x < 2 ^ 32 \<and> 0 \<le> r_type x \<and> r_type x < 2 ^ 32 \<and>
     length (r_name_field x) = nat (roundup (int (r_namesz x)) 2) \<and>
     CHR 0x00 \<in> set (r_name_field x) \<and>
     length (r_desc_field x) = nat (roundup (int (r_descsz x)) 2)"

text \<open>An example range: two notes, \<open>CORE\<close> and \<open>LINUX\<close>, 52 bytes, at offset 4.\<close>

definition example_notes :: "raw_note list" where
  "example_notes =
     [\<lparr>r_namesz = 5, r_descsz = 3, r_type = 6,
       r_name_field = ''CORE'' @ replicate 4 (CHR 0x00),
       r_desc_field = ''xyz'' @ [CHR 0x00]\<rparr>,
      \<lparr>r_namesz = 6, r_descsz = 8, r_type = 1,
       r_name_field = ''LINUX'' @ replicate 3 (CHR 0x00),
       r_desc_field = ''01234567''\<rparr>]"

definition example_note_segment :: segment where
  "example_note_segment =
     \<lparr>p_type = PT_NOTE, p_offset = 4, p_filesz = 52, p_vaddr = 0, p_memsz = 0, p_flags = 4\<rparr>"

subsection \<open>Architecture and constants\<close>

text \<open>
  The two supported architectures; \<^verbatim>\<open>context.bytes\<close> is the pointer width that
  \<^verbatim>\<open>context.local(bytes=self.bytes)\<close> sets around every decoder call.
\<close>

datatype arch = I386 | AMD64

fun arch_bytes :: "arch \<Rightarrow> nat" where
  "arch_bytes I386 = 4"
| "arch_bytes AMD64 = 8"

text \<open>
  Note types and the auxiliary-vector key, as the constant tables of the ELF ABI give
  them. pyelftools reports note type 1 (the process-status note of a core file) under
  the enum name \<^verbatim>\<open>'NT_GNU_ABI_TAG'\<close>; every other type used here is compared as a
  number.
\<close>

definition NT_GNU_ABI_TAG :: int where "NT_GNU_ABI_TAG = 1"
definition NT_FILE :: int where "NT_FILE = 0x46494c45"
definition NT_AUXV :: int where "NT_AUXV = 6"
definition AT_EXECFN :: int where "AT_EXECFN = 31"

subsection \<open>The tube over a note descriptor\<close>

text \<open>
  Modelled from the spec: \<^verbatim>\<open>pwnlib.tubes.tube\<close> is not among the sources. A tube
  filled by \<^verbatim>\<open>unrecv(note.n_desc)\<close> is its receive buffer. \<^verbatim>\<open>unpack()\<close> takes
  one pointer-width word off the front, \<^verbatim>\<open>recvuntil('\x00', drop=True)\<close> takes a
  string up to its NUL and drops the NUL; a read that runs past the descriptor fails
  (the spec's TruncatedNote; a bare tube has no other source of bytes and raises
  \<^verbatim>\<open>EOFError\<close>).
\<close>

type_synonym tube = string

definition unpack :: "nat \<Rightarrow> tube \<Rightarrow> error + (int \<times> tube)" where
  "unpack w t = (if length t < w then Inl EOFError else Inr (le_int (take w t), drop w t))"

definition recvuntil_nul :: "tube \<Rightarrow> error + (string \<times> tube)" where
  "recvuntil_nul t =
     (if CHR 0x00 \<in> set t
      then Inr (takeWhile (\<lambda>c. c \<noteq> CHR 0x00) t, tl (dropWhile (\<lambda>c. c \<noteq> CHR 0x00) t))
      else Inl EOFError)"

subsection \<open>Mappings\<close>

record Mapping =
  name :: "string option"
  start :: int
  stop :: int
  size_m :: int
  flags :: int

text \<open>\<^verbatim>\<open>Mapping.__init__\<close>.\<close>

definition Mapping_init :: "string option \<Rightarrow> int \<Rightarrow> int \<Rightarrow> int \<Rightarrow> Mapping" where
  "Mapping_init nm s e fl = \<lparr>name = nm, start = s, stop = e, size_m = e - s, flags = fl\<rparr>"

text \<open>\<^verbatim>\<open>permstr\<close>, from the three low bits of the flags.\<close>

definition permstr :: "Mapping \<Rightarrow> string" where
  "permstr m =
     [if flags m AND 4 \<noteq> 0 then CHR ''r'' else CHR ''-'',
      if flags m AND 2 \<noteq> 0 then CHR ''w'' else CHR ''-'',
      if flags m AND 1 \<noteq> 0 then CHR ''x'' else CHR ''-'',
      CHR ''p'']"

subsection \<open>The core object\<close>

text \<open>
  \<^verbatim>\<open>Mapping\<close> objects are shared: the list \<^verbatim>\<open>self.mappings\<close>, the dictionary
  \<^verbatim>\<open>self.addresses\<close> and, later, \<^verbatim>\<open>self.stack\<close> all point at the same objects, and
  the code updates \<^verbatim>\<open>flags\<close> and \<^verbatim>\<open>name\<close> through either. So the objects live in a
  store, \<open>heap\<close>, in the order of their creation by the last run of
  \<^verbatim>\<open>_parse_nt_file\<close>, and the list and the dictionary hold references (positions in
  the store).

  \<^verbatim>\<open>self.stack\<close> is \<^verbatim>\<open>None\<close>, then the integer anchor, then a \<^verbatim>\<open>Mapping\<close>.
  The attributes \<^verbatim>\<open>files\<close>, \<^verbatim>\<open>load_addr\<close> and \<^verbatim>\<open>_address\<close> are set once and
  never read; they are left out.
\<close>

datatype stack_val = StackNone | StackAddr int | StackMap nat

record Core =
  NT_PRSTATUS :: "elf_note option"
  prstatus :: "string option"
  mappings :: "nat list"
  addresses :: "int \<rightharpoonup> nat"
  heap :: "Mapping list"
  stack :: stack_val
  at_execfn :: "int option"
  env :: "string \<rightharpoonup> int"

text \<open>
  What the code reads of the opened file: the architecture, the program headers, the
  file's bytes, and the process memory behind \<^verbatim>\<open>self.u8\<close>, \<^verbatim>\<open>self.unpack\<close> and
  \<^verbatim>\<open>self.string\<close>, as regions of bytes at their start addresses.
\<close>

record corefile =
  arch :: arch
  segments :: "segment list"
  stream :: string
  memory :: "(int \<times> string) list"

subsection \<open>The mapped-file note\<close>

text \<open>The first loop of \<^verbatim>\<open>_parse_nt_file\<close>: \<open>count\<close> triples.\<close>

fun read_triples ::
  "nat \<Rightarrow> nat \<Rightarrow> tube \<Rightarrow> Mapping list \<Rightarrow> (int \<rightharpoonup> nat)
     \<Rightarrow> error + (tube \<times> Mapping list \<times> (int \<rightharpoonup> nat))" where
  "read_triples w 0 t ms ads = Inr (t, ms, ads)"
| "read_triples w (Suc n) t ms ads =
     (case unpack w t of
        Inl e \<Rightarrow> Inl e
      | Inr (s, t1) \<Rightarrow>
          (case unpack w t1 of
             Inl e \<Rightarrow> Inl e
           | Inr (e, t2) \<Rightarrow>
               (case unpack w t2 of
                  Inl e \<Rightarrow> Inl e
                | Inr (ofs, t3) \<Rightarrow>
                    read_triples w n t3 (ms @ [Mapping_init None s e 0])
                      (ads(s \<mapsto> length ms)))))"

text \<open>
  The second loop: \<open>n\<close> more names, the next one for \<^verbatim>\<open>mappings[i]\<close>.
\<close>

fun read_names :: "nat \<Rightarrow> nat \<Rightarrow> tube \<Rightarrow> Mapping list \<Rightarrow> error + (tube \<times> Mapping list)" where
  "read_names i 0 t ms = Inr (t, ms)"
| "read_names i (Suc n) t ms =
     (case recvuntil_nul t of
        Inl e \<Rightarrow> Inl e
      | Inr (filename, t1) \<Rightarrow>
          (if i < length ms
           then read_names (Suc i) n t1 (ms[i := (ms ! i)\<lparr>name := Some filename\<rparr>])
           else Inl IndexError))"

text \<open>The third loop, over \<^verbatim>\<open>self.segments\<close>.\<close>

fun merge_segments ::
  "segment list \<Rightarrow> Mapping list \<Rightarrow> (int \<rightharpoonup> nat) \<Rightarrow> Mapping list \<times> (int \<rightharpoonup> nat)" where
  "merge_segments [] ms ads = (ms, ads)"
| "merge_segments (s # ss) ms ads =
     (if p_type s \<noteq> PT_LOAD then merge_segments ss ms ads
      else (case ads (p_vaddr s) of
              Some r \<Rightarrow> merge_segments ss (ms[r := (ms ! r)\<lparr>flags := p_flags s\<rparr>]) ads
            | None \<Rightarrow>
                merge_segments ss
                  (ms @ [Mapping_init None (p_vaddr s) (p_vaddr s + p_memsz s) (p_flags s)])
                  (ads(p_vaddr s \<mapsto> length ms))))"

text \<open>
  The local variables of \<^verbatim>\<open>_parse_nt_file\<close> at its last two lines: the objects, the
  references sorted by start address (\<^verbatim>\<open>sorted\<close> is stable, as \<open>sort_key\<close> is),
  and the dictionary.
\<close>

definition build_mappings ::
  "nat \<Rightarrow> segment list \<Rightarrow> string \<Rightarrow> error + (nat list \<times> Mapping list \<times> (int \<rightharpoonup> nat))" where
  "build_mappings w segs desc =
     (case unpack w desc of
        Inl e \<Rightarrow> Inl e
      | Inr (count, t1) \<Rightarrow>
          (case unpack w t1 of
             Inl e \<Rightarrow> Inl e
           | Inr (page_size, t2) \<Rightarrow>
               (case read_triples w (nat count) t2 [] Map.empty of
                  Inl e \<Rightarrow> Inl e
                | Inr (t3, ms, ads) \<Rightarrow>
                    (case read_names 0 (nat count) t3 ms of
                       Inl e \<Rightarrow> Inl e
                     | Inr (t4, ms1) \<Rightarrow>
                         (case merge_segments segs ms1 ads of
                            (ms2, ads2) \<Rightarrow>
                              Inr (sort_key (\<lambda>r. start (ms2 ! r)) [0..<length ms2],
                                   ms2, ads2))))))"

definition parse_nt_file :: "corefile \<Rightarrow> Core \<Rightarrow> elf_note \<Rightarrow> error + Core" where
  "parse_nt_file f c nt =
     (case build_mappings (arch_bytes (arch f)) (segments f) (n_desc nt) of
        Inl e \<Rightarrow> Inl e
      | Inr (refs, ms, ads) \<Rightarrow> Inr (c\<lparr>mappings := refs, addresses := ads, heap := ms\<rparr>))"

text \<open>The mappings of a core object, in the order of \<^verbatim>\<open>self.mappings\<close>.\<close>

definition mapping_list :: "Core \<Rightarrow> Mapping list" where
  "mapping_list c = map (\<lambda>r. heap c ! r) (mappings c)"

subsection \<open>The auxiliary vector\<close>

text \<open>
  \<^verbatim>\<open>len(range(0, n, step))\<close> for a positive step.
\<close>

definition range_len :: "nat \<Rightarrow> nat \<Rightarrow> nat" where
  "range_len n step = (n + step - 1) div step"

text \<open>
  The loop of \<^verbatim>\<open>_parse_auxv\<close>, \<open>n\<close> turns to go; it returns the tube as well, to
  show what is left of the descriptor.
\<close>

fun auxv_loop :: "nat \<Rightarrow> nat \<Rightarrow> tube \<Rightarrow> Core \<Rightarrow> error + (Core \<times> tube)" where
  "auxv_loop w 0 t c = Inr (c, t)"
| "auxv_loop w (Suc n) t c =
     (case unpack w t of
        Inl e \<Rightarrow> Inl e
      | Inr (key, t1) \<Rightarrow>
          (case unpack w t1 of
             Inl e \<Rightarrow> Inl e
           | Inr (val, t2) \<Rightarrow>
               auxv_loop w n t2
                 (if key = AT_EXECFN
                  then c\<lparr>at_execfn := Some val,
                         stack := StackAddr ((val AND NOT 0xfff) + 0x1000)\<rparr>
                  else c)))"

definition parse_auxv :: "corefile \<Rightarrow> Core \<Rightarrow> elf_note \<Rightarrow> error + Core" where
  "parse_auxv f c nt =
     (case auxv_loop (arch_bytes (arch f))
             (range_len (n_descsz nt) (arch_bytes (arch f) * 2)) (n_desc nt) c of
        Inl e \<Rightarrow> Inl e
      | Inr (c', t) \<Rightarrow> Inr c')"

subsection \<open>Reading process memory\<close>

text \<open>
  Modelled from the spec: the memory reader of the ELF layer (\<^verbatim>\<open>self.u8\<close>,
  \<^verbatim>\<open>self.unpack\<close>, \<^verbatim>\<open>self.string\<close> of \<^verbatim>\<open>pwnlib.elf.elf\<close>) is not among the
  sources. It is a random-access reader keyed by virtual address that fails when an
  address falls outside all known regions (the spec's AddressNotMapped; the
  \<^verbatim>\<open>ValueError\<close> that \<^verbatim>\<open>_parse_stack\<close> catches).
\<close>

fun read_byte :: "(int \<times> string) list \<Rightarrow> int \<Rightarrow> char option" where
  "read_byte [] a = None"
| "read_byte ((base, data) # rest) a =
     (if base \<le> a \<and> a < base + int (length data)
      then Some (data ! nat (a - base))
      else read_byte rest a)"

fun read_mem :: "(int \<times> string) list \<Rightarrow> int \<Rightarrow> nat \<Rightarrow> error + string" where
  "read_mem mem a 0 = Inr []"
| "read_mem mem a (Suc n) =
     (case read_byte mem a of
        None \<Rightarrow> Inl ValueError
      | Some c \<Rightarrow>
          (case read_mem mem (a + 1) n of
             Inl e \<Rightarrow> Inl e
           | Inr cs \<Rightarrow> Inr (c # cs)))"

definition mem_unpack :: "nat \<Rightarrow> (int \<times> string) list \<Rightarrow> int \<Rightarrow> error + int" where
  "mem_unpack w mem a =
     (case read_mem mem a w of Inl e \<Rightarrow> Inl e | Inr cs \<Rightarrow> Inr (le_int cs))"

definition mem_u8 :: "(int \<times> string) list \<Rightarrow> int \<Rightarrow> error + int" where
  "mem_u8 mem a = mem_unpack 1 mem a"

text \<open>The memory is finite: every mapped address lies between these two.\<close>

fun mem_top :: "(int \<times> string) list \<Rightarrow> int" where
  "mem_top [] = 0"
| "mem_top ((base, data) # rest) = max (base + int (length data)) (mem_top rest)"

fun mem_bot :: "(int \<times> string) list \<Rightarrow> int" where
  "mem_bot [] = 0"
| "mem_bot ((base, data) # rest) = min base (mem_bot rest)"

lemma read_byte_bounds: "read_byte mem a = Some c \<Longrightarrow> mem_bot mem \<le> a \<and> a < mem_top mem"
  by (induction mem) (auto split: if_splits)

lemma mem_unpack_bounds: "mem_unpack w mem a = Inr v \<Longrightarrow> 0 < w \<Longrightarrow> mem_bot mem \<le> a"
  by (cases w) (auto simp: mem_unpack_def dest: read_byte_bounds split: option.splits sum.splits)

text \<open>\<^verbatim>\<open>self.string(address)\<close>: the bytes from \<open>address\<close> up to the next NUL.\<close>

function mem_string :: "(int \<times> string) list \<Rightarrow> int \<Rightarrow> error + string" where
  "mem_string mem a =
     (case read_byte mem a of
        None \<Rightarrow> Inl ValueError
      | Some c \<Rightarrow>
          (if c = CHR 0x00 then Inr []
           else (case mem_string mem (a + 1) of
                   Inl e \<Rightarrow> Inl e
                 | Inr cs \<Rightarrow> Inr (c # cs))))"
  by pat_completeness auto
termination
  by (relation "measure (\<lambda>(mem, a). nat (mem_top mem - a))")
     (auto dest: read_byte_bounds)

declare mem_string.simps [simp del]

subsection \<open>The stack\<close>

text \<open>\<^verbatim>\<open>while self.u8(address-1) != 0: address -= 1\<close>\<close>

function scan_string_start :: "(int \<times> string) list \<Rightarrow> int \<Rightarrow> error + int" where
  "scan_string_start mem address =
     (case mem_u8 mem (address - 1) of
        Inl e \<Rightarrow> Inl e
      | Inr b \<Rightarrow> (if b \<noteq> 0 then scan_string_start mem (address - 1) else Inr address))"
  by pat_completeness auto
termination
  by (relation "measure (\<lambda>(mem, a). nat (a - mem_bot mem))")
     (auto simp: mem_u8_def dest: mem_unpack_bounds)

declare scan_string_start.simps [simp del]

text \<open>\<^verbatim>\<open>while self.unpack(address) != last_env_addr: address -= context.bytes\<close>\<close>

function scan_envp_end :: "arch \<Rightarrow> (int \<times> string) list \<Rightarrow> int \<Rightarrow> int \<Rightarrow> error + int" where
  "scan_envp_end ar mem last_env_addr address =
     (case mem_unpack (arch_bytes ar) mem address of
        Inl e \<Rightarrow> Inl e
      | Inr v \<Rightarrow>
          (if v \<noteq> last_env_addr
           then scan_envp_end ar mem last_env_addr (address - int (arch_bytes ar))
           else Inr address))"
  by pat_completeness auto
termination
proof (relation "measure (\<lambda>(ar, mem, l, a). nat (a - mem_bot mem + 1))", goal_cases)
  case 1
  show ?case by simp
next
  case (2 ar mem last_env_addr address v)
  have "0 < arch_bytes ar" by (cases ar) simp_all
  with 2 show ?case by (auto dest: mem_unpack_bounds)
qed

declare scan_envp_end.simps [simp del]

text \<open>\<^verbatim>\<open>while self.unpack(address - context.bytes) != 0: address -= context.bytes\<close>\<close>

function scan_envp_start :: "arch \<Rightarrow> (int \<times> string) list \<Rightarrow> int \<Rightarrow> error + int" where
  "scan_envp_start ar mem address =
     (case mem_unpack (arch_bytes ar) mem (address - int (arch_bytes ar)) of
        Inl e \<Rightarrow> Inl e
      | Inr v \<Rightarrow>
          (if v \<noteq> 0 then scan_envp_start ar mem (address - int (arch_bytes ar))
           else Inr address))"
  by pat_completeness auto
termination
proof (relation "measure (\<lambda>(ar, mem, a). nat (a - mem_bot mem))", goal_cases)
  case 1
  show ?case by simp
next
  case (2 ar mem address v)
  have "0 < arch_bytes ar" by (cases ar) simp_all
  with 2 show ?case by (auto dest: mem_unpack_bounds)
qed

declare scan_envp_start.simps [simp del]

text \<open>\<^verbatim>\<open>range(start, stop, step)\<close> for a positive step.\<close>

definition py_range :: "int \<Rightarrow> int \<Rightarrow> int \<Rightarrow> int list" where
  "py_range lo hi step =
     map (\<lambda>k. lo + int k * step) [0..<nat ((hi - lo + step - 1) div step)]"

text \<open>\<^verbatim>\<open>s.split(sep, 1)\<close>: one part, or the parts before and after the first \<open>sep\<close>.\<close>

definition split_1 :: "char \<Rightarrow> string \<Rightarrow> string list" where
  "split_1 sep s =
     (if sep \<in> set s
      then [takeWhile (\<lambda>c. c \<noteq> sep) s, tl (dropWhile (\<lambda>c. c \<noteq> sep) s)]
      else [s])"

text \<open>The last loop of \<^verbatim>\<open>_parse_stack\<close>, over the slots of the envp array.\<close>

fun fill_env ::
  "nat \<Rightarrow> (int \<times> string) list \<Rightarrow> int list \<Rightarrow> (string \<rightharpoonup> int) \<Rightarrow> error + (string \<rightharpoonup> int)" where
  "fill_env w mem [] ev = Inr ev"
| "fill_env w mem (slot # slots) ev =
     (case mem_unpack w mem slot of
        Inl e \<Rightarrow> Inl e
      | Inr envaddr \<Rightarrow>
          (case mem_string mem envaddr of
             Inl e \<Rightarrow> Inl e
           | Inr val \<Rightarrow> fill_env w mem slots (ev(hd (split_1 (CHR ''='') val) \<mapsto> envaddr))))"

text \<open>
  \<^verbatim>\<open>_parse_stack\<close>. Only the first read stands inside the \<^verbatim>\<open>try\<close>: there an
  \<^verbatim>\<open>AssertionError\<close> and a \<^verbatim>\<open>ValueError\<close> end the function quietly. Every later
  exception, the second \<^verbatim>\<open>assert\<close> included, leaves the function.
\<close>

definition parse_stack :: "corefile \<Rightarrow> Core \<Rightarrow> error + Core" where
  "parse_stack f c =
     (case at_execfn c of
        None \<Rightarrow> Inl AttributeError
      | Some execfn \<Rightarrow>
          (let mem = memory f; w = arch_bytes (arch f) in
           case (case mem_u8 mem (execfn - 1) of
                   Inl e \<Rightarrow> Inl e
                 | Inr b \<Rightarrow> (if b = 0 then Inr () else Inl AssertionError)) of
             Inl e \<Rightarrow> (if e = AssertionError \<or> e = ValueError then Inr c else Inl e)
           | Inr _ \<Rightarrow>
               (case scan_string_start mem (execfn - 1) of
                  Inl e \<Rightarrow> Inl e
                | Inr last_env_addr \<Rightarrow>
                    (case scan_envp_end (arch f) mem last_env_addr
                            (last_env_addr AND NOT (int w - 1)) of
                       Inl e \<Rightarrow> Inl e
                     | Inr address \<Rightarrow>
                         (case mem_unpack w mem (address + int w) of
                            Inl e \<Rightarrow> Inl e
                          | Inr z \<Rightarrow>
                              (if z \<noteq> 0 then Inl AssertionError
                               else (let end_of_envp = address + int w in
                                     case scan_envp_start (arch f) mem address of
                                       Inl e \<Rightarrow> Inl e
                                     | Inr start_of_envp \<Rightarrow>
                                         (case fill_env w mem
                                                 (py_range start_of_envp end_of_envp (int w))
                                                 (env c) of
                                            Inl e \<Rightarrow> Inl e
                                          | Inr ev \<Rightarrow> Inr (c\<lparr>env := ev\<rparr>)))))))))"

subsection \<open>Construction\<close>

text \<open>
  \<^verbatim>\<open>prstatus_type.from_buffer_copy(note.n_desc)\<close>: a copy of the first
  \<^verbatim>\<open>sizeof(prstatus_type)\<close> bytes, an error when the buffer is shorter. The register
  layouts (\<^verbatim>\<open>elf_prstatus_i386\<close>, \<^verbatim>\<open>elf_prstatus_amd64\<close>) are not among the sources;
  their sizes are the parameter \<open>types\<close>, and the register state is kept as the bytes
  the structure views.
\<close>

definition from_buffer_copy :: "nat \<Rightarrow> string \<Rightarrow> error + string" where
  "from_buffer_copy sz buf = (if length buf < sz then Inl ValueError else Inr (take sz buf))"

text \<open>
  The test for the process-status note:
  \<^verbatim>\<open>note.n_descsz == ctypes.sizeof(prstatus_type) and note.n_type == 'NT_GNU_ABI_TAG'\<close>.
\<close>

definition is_prstatus_note :: "(arch \<Rightarrow> nat) \<Rightarrow> corefile \<Rightarrow> elf_note \<Rightarrow> bool" where
  "is_prstatus_note types f nt \<longleftrightarrow>
     n_descsz nt = types (arch f) \<and> n_type nt = NT_GNU_ABI_TAG"

text \<open>The body of the inner loop of \<^verbatim>\<open>Core.__init__\<close>: three tests on one note.\<close>

definition process_note :: "(arch \<Rightarrow> nat) \<Rightarrow> corefile \<Rightarrow> Core \<Rightarrow> elf_note \<Rightarrow> error + Core" where
  "process_note types f c nt =
     (case (if is_prstatus_note types f nt
            then (case from_buffer_copy (types (arch f)) (n_desc nt) of
                    Inl e \<Rightarrow> Inl e
                  | Inr regs \<Rightarrow> Inr (c\<lparr>NT_PRSTATUS := Some nt, prstatus := Some regs\<rparr>))
            else Inr c) of
        Inl e \<Rightarrow> Inl e
      | Inr c1 \<Rightarrow>
          (case (if n_type nt = NT_FILE then parse_nt_file f c1 nt else Inr c1) of
             Inl e \<Rightarrow> Inl e
           | Inr c2 \<Rightarrow> (if n_type nt = NT_AUXV then parse_auxv f c2 nt else Inr c2)))"

fun process_notes :: "(arch \<Rightarrow> nat) \<Rightarrow> corefile \<Rightarrow> Core \<Rightarrow> elf_note list \<Rightarrow> error + Core" where
  "process_notes types f c [] = Inr c"
| "process_notes types f c (nt # nts) =
     (case process_note types f c nt of
        Inl e \<Rightarrow> Inl e
      | Inr c' \<Rightarrow> process_notes types f c' nts)"

text \<open>
  \<^verbatim>\<open>for note in iter_notes(segment)\<close>: the yielded notes are handled in order, and
  the exception that ends the generator, if any, is raised after the last of them.
\<close>

definition consume_notes ::
  "(arch \<Rightarrow> nat) \<Rightarrow> corefile \<Rightarrow> Core \<Rightarrow> elf_note list \<times> error option \<Rightarrow> error + Core" where
  "consume_notes types f c gen =
     (case process_notes types f c (fst gen) of
        Inl e \<Rightarrow> Inl e
      | Inr c' \<Rightarrow> (case snd gen of Some e \<Rightarrow> Inl e | None \<Rightarrow> Inr c'))"

fun process_segments ::
  "(arch \<Rightarrow> nat) \<Rightarrow> corefile \<Rightarrow> segment list \<Rightarrow> Core \<Rightarrow> error + Core" where
  "process_segments types f [] c = Inr c"
| "process_segments types f (s # ss) c =
     (if p_type s \<noteq> PT_NOTE then process_segments types f ss c
      else (case consume_notes types f c (iter_notes s (stream f)) of
              Inl e \<Rightarrow> Inl e
            | Inr c' \<Rightarrow> process_segments types f ss c'))"

text \<open>
  All the notes the scan of \<^verbatim>\<open>Core.__init__\<close> meets, in the order it meets them:
  those of every note segment, in the order of the program headers.
\<close>

definition file_notes :: "corefile \<Rightarrow> segment list \<Rightarrow> elf_note list" where
  "file_notes f segs =
     concat (map (\<lambda>s. fst (iter_notes s (stream f))) (filter (\<lambda>s. p_type s = PT_NOTE) segs))"

text \<open>Truth value of \<^verbatim>\<open>self.stack\<close>; \<^verbatim>\<open>mapping.stop == self.stack\<close>.\<close>

fun stack_truthy :: "stack_val \<Rightarrow> bool" where
  "stack_truthy StackNone = False"
| "stack_truthy (StackAddr a) = (a \<noteq> 0)"
| "stack_truthy (StackMap r) = True"

fun stop_eq_stack :: "int \<Rightarrow> stack_val \<Rightarrow> bool" where
  "stop_eq_stack e (StackAddr a) = (e = a)"
| "stop_eq_stack e _ = False"

text \<open>\<^verbatim>\<open>for mapping in self.mappings: if mapping.stop == self.stack: ...\<close>\<close>

fun find_stack :: "corefile \<Rightarrow> nat list \<Rightarrow> Core \<Rightarrow> error + Core" where
  "find_stack f [] c = Inr c"
| "find_stack f (r # rs) c =
     (if stop_eq_stack (stop (heap c ! r)) (stack c)
      then (case parse_stack f
                   (c\<lparr>heap := (heap c)[r := (heap c ! r)\<lparr>name := Some ''[stack]''\<rparr>],
                      stack := StackMap r\<rparr>) of
              Inl e \<Rightarrow> Inl e
            | Inr c' \<Rightarrow> find_stack f rs c')
      else find_stack f rs c)"

text \<open>The attributes set at the head of \<^verbatim>\<open>Core.__init__\<close>.\<close>

definition Core_new :: Core where
  "Core_new = \<lparr>NT_PRSTATUS = None, prstatus = None, mappings = [], addresses = Map.empty,
               heap = [], stack = StackNone, at_execfn = None, env = Map.empty\<rparr>"

text \<open>
  \<^verbatim>\<open>Core.__init__\<close> for a file that passes its two checks (a core file of a
  supported architecture).
\<close>

definition Core_init :: "(arch \<Rightarrow> nat) \<Rightarrow> corefile \<Rightarrow> error + Core" where
  "Core_init types f =
     (case process_segments types f (segments f) Core_new of
        Inl e \<Rightarrow> Inl e
      | Inr c \<Rightarrow>
          (if stack_truthy (stack c) \<and> mappings c \<noteq> [] then find_stack f (mappings c) c
           else Inr c))"

text \<open>
  \<^verbatim>\<open>getenv\<close>: \<^verbatim>\<open>log.error\<close> raises for a name that is not set; otherwise the
  result is the last part of the string at the recorded address, split at its first
  \<open>=\<close>.
\<close>

definition getenv :: "corefile \<Rightarrow> Core \<Rightarrow> string \<Rightarrow> error + string" where
  "getenv f c nm =
     (case env c nm of
        None \<Rightarrow> Inl PwnlibException
      | Some a \<Rightarrow>
          (case mem_string (memory f) a of
             Inl e \<Rightarrow> Inl e
           | Inr s \<Rightarrow> Inr (last (split_1 (CHR ''='') s))))"

subsection \<open>Properties of a mapping list\<close>

text \<open>
  Strictly ascending start addresses; no two members overlap (as half-open ranges);
  and two mappings that are the same object but for the name \<open>[stack]\<close>.
\<close>

definition strictly_sorted_by_start :: "Mapping list \<Rightarrow> bool" where
  "strictly_sorted_by_start ms = sorted_wrt (\<lambda>m m'. start m < start m') ms"

definition non_overlapping :: "Mapping list \<Rightarrow> bool" where
  "non_overlapping ms = sorted_wrt (\<lambda>m m'. stop m \<le> start m' \<or> stop m' \<le> start m) ms"

definition same_but_stack_name :: "Mapping \<Rightarrow> Mapping \<Rightarrow> bool" where
  "same_but_stack_name m' m \<longleftrightarrow> m' = m \<or> m' = m\<lparr>name := Some ''[stack]''\<rparr>"

subsection \<open>Invariants of the scan\<close>

text \<open>
  Two properties that every note of the scan preserves: the anchor, once set, is a
  positive integer (and the stack is not yet a mapping); the mapping list is sorted
  by start address.
\<close>

definition anchor_ok :: "Core \<Rightarrow> bool" where
  "anchor_ok c \<longleftrightarrow>
     (case stack c of StackAddr a \<Rightarrow> 0 < a | StackNone \<Rightarrow> True | StackMap r \<Rightarrow> False)"

definition starts_sorted :: "Core \<Rightarrow> bool" where
  "starts_sorted c = sorted (map start (mapping_list c))"

subsection \<open>Example files\<close>

text \<open>
  A note as it stands in a file: the name with its terminator and the descriptor, each
  padded with NUL bytes to a multiple of four.
\<close>

definition pad4 :: "string \<Rightarrow> string" where
  "pad4 s = s @ replicate ((4 - length s mod 4) mod 4) (CHR 0x00)"

definition encode_note :: "string \<Rightarrow> int \<Rightarrow> string \<Rightarrow> string" where
  "encode_note nm ty desc =
     note_image \<lparr>r_namesz = length nm + 1, r_descsz = length desc, r_type = ty,
                 r_name_field = pad4 (nm @ [CHR 0x00]), r_desc_field = pad4 desc\<rparr>"

text \<open>
  The sizes of the two register layouts on Linux (\<^verbatim>\<open>struct elf_prstatus\<close>), for the
  examples.
\<close>

fun linux_types :: "arch \<Rightarrow> nat" where
  "linux_types I386 = 144"
| "linux_types AMD64 = 336"

text \<open>
  The top of a 32-bit stack, 48 bytes at \<open>0xfd0\<close>: \<open>argc\<close>, \<open>argv[0]\<close>, NULL,
  \<open>envp[0] = 0xff0\<close>, NULL, two zero words, the strings \<open>x\<close>, \<open>A=b\<close> and
  \<open>/bin/sh\<close>, and a final zero word. The executable's name stands at \<open>0xff4\<close>.
\<close>

definition example_stack :: string where
  "example_stack =
     le_bytes 4 1 @ le_bytes 4 0xfee @ le_bytes 4 0 @
     le_bytes 4 0xff0 @ le_bytes 4 0 @
     le_bytes 4 0 @ le_bytes 4 0 @
     [CHR 0x00, CHR 0x00, CHR ''x'', CHR 0x00] @
     ''A=b'' @ [CHR 0x00] @
     ''/bin/sh'' @ [CHR 0x00] @
     le_bytes 4 0"

text \<open>
  A core file of that process: one note segment with a mapped-file note (no entries)
  and an auxiliary vector (\<open>AT_EXECFN = 0xff4\<close>, then \<open>AT_NULL\<close>), and one loadable
  segment, the stack.
\<close>

definition example_core_stream :: string where
  "example_core_stream =
     encode_note ''CORE'' NT_FILE (le_bytes 4 0 @ le_bytes 4 0x1000) @
     encode_note ''CORE'' NT_AUXV
       (le_bytes 4 31 @ le_bytes 4 0xff4 @ le_bytes 4 0 @ le_bytes 4 0)"

definition example_core :: corefile where
  "example_core =
     \<lparr>arch = I386,
      segments =
        [\<lparr>p_type = PT_NOTE, p_offset = 0, p_filesz = length example_core_stream,
          p_vaddr = 0, p_memsz = 0, p_flags = 4\<rparr>,
         \<lparr>p_type = PT_LOAD, p_offset = 0x1000, p_filesz = 0x30,
          p_vaddr = 0xfd0, p_memsz = 0x30, p_flags = 6\<rparr>],
      stream = example_core_stream,
      memory = [(0xfd0, example_stack)]\<rparr>"

text \<open>
  A 32-bit core file with two process-status notes (144 bytes of \<open>0x01\<close>, then 144
  bytes of \<open>0x02\<close>) and an auxiliary vector after them; no memory is dumped.
\<close>

definition example_two_prstatus :: corefile where
  "example_two_prstatus =
     \<lparr>arch = I386,
      segments =
        [\<lparr>p_type = PT_NOTE, p_offset = 0, p_filesz = 364,
          p_vaddr = 0, p_memsz = 0, p_flags = 4\<rparr>],
      stream =
        encode_note ''CORE'' 1 (replicate 144 (CHR 0x01)) @
        encode_note ''CORE'' 1 (replicate 144 (CHR 0x02)) @
        encode_note ''CORE'' NT_AUXV
          (le_bytes 4 31 @ le_bytes 4 0xff4 @ le_bytes 4 0 @ le_bytes 4 0),
      memory = []\<rparr>"

text \<open>
  Variants of that file. In the first the loadable segment is larger, so that the
  mapping \<open>[0xfd0, 0x2000)\<close> holds the anchor \<open>0x1000\<close> without ending there. In the
  second no memory was dumped. In the third the dump starts at \<open>0xff0\<close>, the first
  byte of the last environment string. In the fourth the word after \<open>envp[0]\<close> is 1.
\<close>

definition example_core_wide :: corefile where
  "example_core_wide =
     example_core\<lparr>segments :=
        [\<lparr>p_type = PT_NOTE, p_offset = 0, p_filesz = length example_core_stream,
          p_vaddr = 0, p_memsz = 0, p_flags = 4\<rparr>,
         \<lparr>p_type = PT_LOAD, p_offset = 0x1000, p_filesz = 0x30,
          p_vaddr = 0xfd0, p_memsz = 0x1030, p_flags = 6\<rparr>]\<rparr>"



definition example_core_badenvp :: corefile where
  "example_core_badenvp =
     example_core\<lparr>memory :=
        [(0xfd0, take 16 example_stack @ le_bytes 4 1 @ drop 20 example_stack)]\<rparr>"

text \<open>
  A 32-bit core file whose mapped-file note lists the start address \<open>0x2000\<close> twice
  (files \<open>a\<close> and \<open>b\<close>), with two loadable segments, \<open>[0x2000, 0x3000)\<close> and
  \<open>[0x1000, 0x3000)\<close>.
\<close>

definition example_core_dup :: corefile where
  "example_core_dup =
     \<lparr>arch = I386,
      segments =
        [\<lparr>p_type = PT_NOTE, p_offset = 0, p_filesz = 56,
          p_vaddr = 0, p_memsz = 0, p_flags = 4\<rparr>,
         \<lparr>p_type = PT_LOAD, p_offset = 0x1000, p_filesz = 0,
          p_vaddr = 0x2000, p_memsz = 0x1000, p_flags = 5\<rparr>,
         \<lparr>p_type = PT_LOAD, p_offset = 0x1000, p_filesz = 0,
          p_vaddr = 0x1000, p_memsz = 0x2000, p_flags = 6\<rparr>],
      stream =
        encode_note ''CORE'' NT_FILE
          (le_bytes 4 2 @ le_bytes 4 0x1000 @
           le_bytes 4 0x2000 @ le_bytes 4 0x3000 @ le_bytes 4 0 @
           le_bytes 4 0x2000 @ le_bytes 4 0x4000 @ le_bytes 4 1 @
           ''a'' @ [CHR 0x00] @ ''b'' @ [CHR 0x00]),
      memory = []\<rparr>"


text \<open>
  The first example file with a third word, 0, after the pair of its auxiliary vector
  and nothing else.
\<close>

definition example_core_odd_auxv :: corefile where
  "example_core_odd_auxv =
     example_core\<lparr>
       segments :=
        [\<lparr>p_type = PT_NOTE, p_offset = 0, p_filesz = 60,
          p_vaddr = 0, p_memsz = 0, p_flags = 4\<rparr>,
         \<lparr>p_type = PT_LOAD, p_offset = 0x1000, p_filesz = 0x30,
          p_vaddr = 0xfd0, p_memsz = 0x30, p_flags = 6\<rparr>],
       stream :=
         encode_note ''CORE'' NT_FILE (le_bytes 4 0 @ le_bytes 4 0x1000) @
         encode_note ''CORE'' NT_AUXV (le_bytes 4 31 @ le_bytes 4 0xff4 @ le_bytes 4 0)\<rparr>"

text \<open>
  A file whose note segment is 20 bytes long while its only note takes 28 (the
  descriptor runs past the end of the segment, into bytes the file does hold); and a
  file that ends six bytes into the header of its second note.
\<close>

definition example_core_short_range :: corefile where
  "example_core_short_range =
     \<lparr>arch = I386,
      segments =
        [\<lparr>p_type = PT_NOTE, p_offset = 0, p_filesz = 20,
          p_vaddr = 0, p_memsz = 0, p_flags = 4\<rparr>],
      stream = encode_note ''CORE'' NT_AUXV (le_bytes 4 31 @ le_bytes 4 0xff4) @ ''tail'',
      memory = []\<rparr>"

definition example_core_truncated :: corefile where
  "example_core_truncated =
     \<lparr>arch = I386,
      segments =
        [\<lparr>p_type = PT_NOTE, p_offset = 0, p_filesz = 56,
          p_vaddr = 0, p_memsz = 0, p_flags = 4\<rparr>],
      stream =
        encode_note ''CORE'' NT_AUXV (le_bytes 4 31 @ le_bytes 4 0xff4) @
        take 6 (encode_note ''CORE'' NT_AUXV (le_bytes 4 31 @ le_bytes 4 0xff4)),
      memory = []\<rparr>"

section \<open>Properties of the note iterator\<close>

lemma length_le_bytes [simp]: "length (le_bytes n v) = n"
  by (induction n arbitrary: v) auto

lemma le_int_le_bytes: "0 \<le> v \<Longrightarrow> v < 256 ^ n \<Longrightarrow> le_int (le_bytes n v) = v"
proof (induction n arbitrary: v)
  case 0
  then show ?case by simp
next
  case (Suc n)
  have "0 \<le> v div 256" "v div 256 < 256 ^ n"
    using Suc.prems by simp_all
  then have "le_int (le_bytes n (v div 256)) = v div 256"
    by (rule Suc.IH)
  then show ?case by simp
qed

lemma length_note_image:
  "length (note_image x) = Nhdr_sizeof + length (r_name_field x) + length (r_desc_field x)"
  by (simp add: note_image_def Nhdr_sizeof_def)

lemma roundup_ge: "0 \<le> n \<Longrightarrow> n \<le> roundup n 2"
  by (simp add: roundup_2)

lemma read_note_image:
  assumes "well_formed_note x"
  shows "read_note (pre @ note_image x @ post) (length pre) =
           Inr \<lparr>n_namesz = r_namesz x, n_descsz = r_descsz x, n_type = r_type x,
                n_offset = length pre,
                n_name = takeWhile (\<lambda>c. c \<noteq> CHR 0x00) (r_name_field x),
                n_desc = take (r_descsz x) (r_desc_field x),
                n_size = length (note_image x)\<rparr>"
proof -
  let ?s = "pre @ note_image x @ post"
  have w: "int (r_namesz x) < 256 ^ 4" "int (r_descsz x) < 256 ^ 4"
    "0 \<le> r_type x" "r_type x < 256 ^ 4"
    using assms by (simp_all add: well_formed_note_def)
  have ln: "length (r_name_field x) = nat (roundup (int (r_namesz x)) 2)"
    and ld: "length (r_desc_field x) = nat (roundup (int (r_descsz x)) 2)"
    and nul: "CHR 0x00 \<in> set (r_name_field x)"
    using assms by (simp_all add: well_formed_note_def)
  have hdr: "struct_parse_Nhdr ?s (length pre) = Inr (r_namesz x, r_descsz x, r_type x)"
    by (simp add: struct_parse_Nhdr_def note_image_def Nhdr_sizeof_def
        le_int_le_bytes [OF _ w(1)] le_int_le_bytes [OF _ w(2)] le_int_le_bytes [OF w(3,4)])
  have nm: "take (nat (roundup (int (r_namesz x)) 2)) (drop (length pre + Nhdr_sizeof) ?s)
              = r_name_field x"
    by (simp add: note_image_def Nhdr_sizeof_def ln [symmetric])
  have ds: "take (r_descsz x)
              (drop (length pre + Nhdr_sizeof + nat (roundup (int (r_namesz x)) 2)) ?s)
              = take (r_descsz x) (r_desc_field x)"
  proof -
    have "r_descsz x \<le> length (r_desc_field x)"
      using roundup_ge [of "int (r_descsz x)"] by (simp add: ld)
    then show ?thesis
      by (simp add: note_image_def Nhdr_sizeof_def ln [symmetric])
  qed
  show ?thesis
    apply (simp only: read_note_def hdr sum.case prod.case Let_def nm ds)
    apply (simp add: CString_parse_def nul length_note_image ln ld)
    done
qed

lemma iter_notes_from_sizes:
  "n \<in> set (fst (iter_notes_from strm end offset)) \<Longrightarrow>
     n_size n = Nhdr_sizeof + nat (roundup (int (n_namesz n)) 2)
                  + nat (roundup (int (n_descsz n)) 2)"
proof (induction strm "end" offset rule: iter_notes_from.induct)
  case (1 strm "end" offset)
  show ?case
  proof (cases "offset < end")
    case False
    with "1.prems" show ?thesis
      by (simp add: iter_notes_from.simps [of strm "end" offset])
  next
    case True
    show ?thesis
    proof (cases "read_note strm offset")
      case (Inl e)
      with True "1.prems" show ?thesis
        by (simp add: iter_notes_from.simps [of strm "end" offset])
    next
      case (Inr m)
      with True "1.prems"
      have "n = m \<or> n \<in> set (fst (iter_notes_from strm end (n_offset m + n_size m)))"
        by (auto simp: iter_notes_from.simps [of strm "end" offset] split: prod.splits)
      then show ?thesis
        using "1.IH" [OF True Inr] read_note_size(2) [OF Inr] by blast
    qed
  qed
qed

lemma iter_notes_from_step:
  assumes "offset < end" and "read_note strm offset = Inr n"
    and "iter_notes_from strm end (offset + n_size n) = (ns, r)"
  shows "iter_notes_from strm end offset = (n # ns, r)"
  using assms read_note_size(1) [OF assms(2)]
  by (subst iter_notes_from.simps) simp

lemma iter_notes_from_images:
  assumes "\<forall>x\<in>set xs. well_formed_note x"
  shows "iter_notes_from (pre @ concat (map note_image xs) @ post)
           (length pre + length (concat (map note_image xs))) (length pre) = (ns, r)
         \<Longrightarrow> r = None \<and> map n_size ns = map (\<lambda>x. length (note_image x)) xs
               \<and> map n_desc ns = map (\<lambda>x. take (r_descsz x) (r_desc_field x)) xs"
  using assms
proof (induction xs arbitrary: pre ns r)
  case Nil
  then show ?case
    by (simp add: iter_notes_from.simps [of _ "length pre" "length pre"])
next
  case (Cons x xs)
  let ?strm = "pre @ concat (map note_image (x # xs)) @ post"
  let ?end = "length pre + length (concat (map note_image (x # xs)))"
  let ?pre' = "pre @ note_image x"
  have wf: "well_formed_note x" and wfs: "\<forall>y\<in>set xs. well_formed_note y"
    using Cons.prems(2) by simp_all
  have strm: "?strm = pre @ note_image x @ (concat (map note_image xs) @ post)"
    by simp
  have rd: "read_note ?strm (length pre) =
              Inr \<lparr>n_namesz = r_namesz x, n_descsz = r_descsz x, n_type = r_type x,
                   n_offset = length pre,
                   n_name = takeWhile (\<lambda>c. c \<noteq> CHR 0x00) (r_name_field x),
                   n_desc = take (r_descsz x) (r_desc_field x),
                   n_size = length (note_image x)\<rparr>" (is "_ = Inr ?n")
    unfolding strm by (rule read_note_image [OF wf])
  have lt: "length pre < ?end"
    by (simp add: length_note_image Nhdr_sizeof_def)
  obtain ns' r' where rest:
    "iter_notes_from ?strm ?end (length pre + length (note_image x)) = (ns', r')"
    by (cases "iter_notes_from ?strm ?end (length pre + length (note_image x))")
  have unfold: "iter_notes_from ?strm ?end (length pre) = (?n # ns', r')"
    by (rule iter_notes_from_step [OF lt rd]) (use rest in simp)
  have "iter_notes_from (?pre' @ concat (map note_image xs) @ post)
          (length ?pre' + length (concat (map note_image xs))) (length ?pre') = (ns', r')"
    using rest by (simp add: add.assoc)
  from Cons.IH [OF this wfs]
  have "r' = None" "map n_size ns' = map (\<lambda>x. length (note_image x)) xs"
    "map n_desc ns' = map (\<lambda>x. take (r_descsz x) (r_desc_field x)) xs"
    by simp_all
  moreover have "ns = ?n # ns'" "r = r'"
    using Cons.prems(1) unfold by simp_all
  ultimately show ?case by simp
qed
section \<open>Frames: what each step changes\<close>

lemma of_char_int_nonneg: "0 \<le> (of_char c :: int)"
  using of_nat_of_char [of c, where ?'a = int] by (metis of_nat_0_le_iff)

lemma le_int_nonneg: "0 \<le> le_int cs"
  by (induction cs) (auto simp: of_char_int_nonneg)

lemma unpack_nonneg: "unpack w t = Inr (v, t') \<Longrightarrow> 0 \<le> v"
  by (auto simp: unpack_def le_int_nonneg split: if_splits)

lemma parse_nt_file_frame:
  assumes "parse_nt_file f c nt = Inr c'"
  shows "\<exists>refs ms ads.
           build_mappings (arch_bytes (arch f)) (segments f) (n_desc nt) = Inr (refs, ms, ads)
           \<and> c' = c\<lparr>mappings := refs, addresses := ads, heap := ms\<rparr>"
  using assms by (auto simp: parse_nt_file_def split: sum.splits)

lemma auxv_loop_frame:
  "auxv_loop w n t c = Inr (c', t') \<Longrightarrow>
     c' = c \<or> (\<exists>v. 0 \<le> v \<and>
                 c' = c\<lparr>at_execfn := Some v, stack := StackAddr ((v AND NOT 0xfff) + 0x1000)\<rparr>)"
proof (induction n arbitrary: t c)
  case 0
  then show ?case by simp
next
  case (Suc n)
  from Suc.prems obtain key t1 val t2 where
    k: "unpack w t = Inr (key, t1)" and v: "unpack w t1 = Inr (val, t2)"
    and rest: "auxv_loop w n t2
                 (if key = AT_EXECFN
                  then c\<lparr>at_execfn := Some val,
                         stack := StackAddr ((val AND NOT 0xfff) + 0x1000)\<rparr>
                  else c) = Inr (c', t')"
    by (auto split: sum.splits)
  have nn: "0 \<le> val" using v by (rule unpack_nonneg)
  show ?case
  proof (cases "key = AT_EXECFN")
    case False
    with rest Suc.IH show ?thesis by simp
  next
    case True
    with rest Suc.IH [of t2 "c\<lparr>at_execfn := Some val,
                         stack := StackAddr ((val AND NOT 0xfff) + 0x1000)\<rparr>"]
    show ?thesis using nn by auto
  qed
qed

lemma parse_auxv_frame:
  assumes "parse_auxv f c nt = Inr c'"
  shows "c' = c \<or> (\<exists>v. 0 \<le> v \<and>
                 c' = c\<lparr>at_execfn := Some v, stack := StackAddr ((v AND NOT 0xfff) + 0x1000)\<rparr>)"
  using assms auxv_loop_frame
  by (fastforce simp: parse_auxv_def split: sum.splits)

lemma parse_stack_frame: "parse_stack f c = Inr c' \<Longrightarrow> c' = c\<lparr>env := env c'\<rparr>"
  by (auto simp: parse_stack_def Let_def split: option.splits sum.splits if_splits)

lemma process_notes_append:
  "process_notes T f c (xs @ ys) =
     (case process_notes T f c xs of Inl e \<Rightarrow> Inl e | Inr c' \<Rightarrow> process_notes T f c' ys)"
  by (induction xs arbitrary: c) (auto split: sum.splits)

lemma process_segments_notes:
  "process_segments T f segs c = Inr c' \<Longrightarrow> process_notes T f c (file_notes f segs) = Inr c'"
proof (induction segs arbitrary: c)
  case Nil
  then show ?case by (simp add: file_notes_def)
next
  case (Cons s segs)
  show ?case
  proof (cases "p_type s = PT_NOTE")
    case False
    with Cons show ?thesis by (simp add: file_notes_def)
  next
    case True
    with Cons.prems obtain c1 where
      c1: "consume_notes T f c (iter_notes s (stream f)) = Inr c1"
      and rest: "process_segments T f segs c1 = Inr c'"
      by (auto split: sum.splits)
    from c1 have "process_notes T f c (fst (iter_notes s (stream f))) = Inr c1"
      by (auto simp: consume_notes_def split: sum.splits option.splits)
    moreover have "file_notes f (s # segs) = fst (iter_notes s (stream f)) @ file_notes f segs"
      using True by (simp add: file_notes_def)
    ultimately show ?thesis
      using Cons.IH [OF rest] by (simp add: process_notes_append)
  qed
qed

lemma process_notes_invariant:
  assumes step: "\<And>c nt c'. P c \<Longrightarrow> process_note T f c nt = Inr c' \<Longrightarrow> P c'"
  shows "P c \<Longrightarrow> process_notes T f c nts = Inr c' \<Longrightarrow> P c'"
proof (induction nts arbitrary: c)
  case Nil
  then show ?case by simp
next
  case (Cons nt nts)
  from Cons.prems(2) obtain c1 where
    "process_note T f c nt = Inr c1" "process_notes T f c1 nts = Inr c'"
    by (auto split: sum.splits)
  with Cons.IH step Cons.prems(1) show ?case by blast
qed

text \<open>
  A note changes the object in at most three steps: the register state, the mappings,
  the stack anchor.
\<close>

lemma process_note_steps:
  assumes "process_note T f c nt = Inr c'"
  obtains c1 c2 where
    "c1 = c \<or> (is_prstatus_note T f nt \<and>
               c1 = c\<lparr>NT_PRSTATUS := Some nt,
                       prstatus := Some (take (T (arch f)) (n_desc nt))\<rparr>)"
    "\<not> is_prstatus_note T f nt \<Longrightarrow> c1 = c"
    "is_prstatus_note T f nt \<Longrightarrow> prstatus c1 = Some (take (T (arch f)) (n_desc nt))"
    "(n_type nt \<noteq> NT_FILE \<and> c2 = c1) \<or> (n_type nt = NT_FILE \<and> parse_nt_file f c1 nt = Inr c2)"
    "(n_type nt \<noteq> NT_AUXV \<and> c' = c2) \<or> (n_type nt = NT_AUXV \<and> parse_auxv f c2 nt = Inr c')"
proof -
  from assms obtain c1 c2 where
    s1: "(if is_prstatus_note T f nt
          then (case from_buffer_copy (T (arch f)) (n_desc nt) of
                  Inl e \<Rightarrow> Inl e
                | Inr regs \<Rightarrow> Inr (c\<lparr>NT_PRSTATUS := Some nt, prstatus := Some regs\<rparr>))
          else Inr c) = Inr c1"
    and s2: "(if n_type nt = NT_FILE then parse_nt_file f c1 nt else Inr c1) = Inr c2"
    and s3: "(if n_type nt = NT_AUXV then parse_auxv f c2 nt else Inr c2) = Inr c'"
    by (auto simp: process_note_def split: sum.splits)
  show thesis
  proof (rule that [of c1 c2])
    show "c1 = c \<or> (is_prstatus_note T f nt \<and>
               c1 = c\<lparr>NT_PRSTATUS := Some nt,
                       prstatus := Some (take (T (arch f)) (n_desc nt))\<rparr>)"
      using s1 by (auto simp: from_buffer_copy_def split: if_splits sum.splits)
    show "\<not> is_prstatus_note T f nt \<Longrightarrow> c1 = c"
      using s1 by simp
    show "is_prstatus_note T f nt \<Longrightarrow> prstatus c1 = Some (take (T (arch f)) (n_desc nt))"
      using s1 by (auto simp: from_buffer_copy_def split: if_splits sum.splits)
    show "(n_type nt \<noteq> NT_FILE \<and> c2 = c1) \<or> (n_type nt = NT_FILE \<and> parse_nt_file f c1 nt = Inr c2)"
      using s2 by (auto split: if_splits)
    show "(n_type nt \<noteq> NT_AUXV \<and> c' = c2) \<or> (n_type nt = NT_AUXV \<and> parse_auxv f c2 nt = Inr c')"
      using s3 by (auto split: if_splits)
  qed
qed

lemma map_update_same: "(map g xs)[r := g (xs ! r)] = map g xs"
  by (cases "r < length xs") (simp_all add: list_update_same_conv list_update_beyond)

lemma find_stack_frame:
  "find_stack f rs c = Inr c' \<Longrightarrow>
     NT_PRSTATUS c' = NT_PRSTATUS c \<and> prstatus c' = prstatus c \<and> mappings c' = mappings c
     \<and> addresses c' = addresses c \<and> at_execfn c' = at_execfn c
     \<and> map start (heap c') = map start (heap c) \<and> map stop (heap c') = map stop (heap c)
     \<and> map flags (heap c') = map flags (heap c)"
proof (induction rs arbitrary: c)
  case Nil
  then show ?case by simp
next
  case (Cons r rs)
  show ?case
  proof (cases "stop_eq_stack (stop (heap c ! r)) (stack c)")
    case False
    with Cons show ?thesis by simp
  next
    case True
    let ?c1 = "c\<lparr>heap := (heap c)[r := (heap c ! r)\<lparr>name := Some ''[stack]''\<rparr>],
                 stack := StackMap r\<rparr>"
    from True Cons.prems obtain c2 where
      p: "parse_stack f ?c1 = Inr c2" and rest: "find_stack f rs c2 = Inr c'"
      by (auto split: sum.splits)
    have c2: "c2 = ?c1\<lparr>env := env c2\<rparr>"
      using p by (rule parse_stack_frame)
    have h: "map start (heap ?c1) = map start (heap c)" "map stop (heap ?c1) = map stop (heap c)"
      "map flags (heap ?c1) = map flags (heap c)"
      by (simp_all add: map_update map_update_same)
    have "NT_PRSTATUS c2 = NT_PRSTATUS c \<and> prstatus c2 = prstatus c \<and> mappings c2 = mappings c
          \<and> addresses c2 = addresses c \<and> at_execfn c2 = at_execfn c
          \<and> heap c2 = heap ?c1"
      by (subst c2, simp)+
    with Cons.IH [OF rest] h show ?thesis by simp
  qed
qed

lemma Core_init_scan:
  assumes "Core_init T f = Inr c'"
  obtains c where "process_segments T f (segments f) Core_new = Inr c"
    and "process_notes T f Core_new (file_notes f (segments f)) = Inr c"
    and "c' = c \<or> find_stack f (mappings c) c = Inr c'"
proof -
  from assms obtain c where c: "process_segments T f (segments f) Core_new = Inr c"
    and r: "(if stack_truthy (stack c) \<and> mappings c \<noteq> [] then find_stack f (mappings c) c
             else Inr c) = Inr c'"
    by (auto simp: Core_init_def split: sum.splits)
  show thesis
  proof (rule that [OF c process_segments_notes [OF c]])
    show "c' = c \<or> find_stack f (mappings c) c = Inr c'"
      using r by (auto split: if_splits)
  qed
qed

lemma process_note_prstatus:
  assumes "process_note T f c nt = Inr c'"
  shows "prstatus c' = (if is_prstatus_note T f nt then Some (take (T (arch f)) (n_desc nt))
                        else prstatus c)"
proof -
  from assms obtain c1 c2 where
    a: "\<not> is_prstatus_note T f nt \<Longrightarrow> c1 = c"
    and b: "is_prstatus_note T f nt \<Longrightarrow> prstatus c1 = Some (take (T (arch f)) (n_desc nt))"
    and s2: "(n_type nt \<noteq> NT_FILE \<and> c2 = c1) \<or> (n_type nt = NT_FILE \<and> parse_nt_file f c1 nt = Inr c2)"
    and s3: "(n_type nt \<noteq> NT_AUXV \<and> c' = c2) \<or> (n_type nt = NT_AUXV \<and> parse_auxv f c2 nt = Inr c')"
    by (rule process_note_steps) blast
  have "prstatus c2 = prstatus c1"
    using s2 by (auto dest: parse_nt_file_frame)
  moreover have "prstatus c' = prstatus c2"
    using s3 by (auto dest: parse_auxv_frame)
  ultimately show ?thesis
    using a b by auto
qed

lemma process_notes_prstatus_unchanged:
  "process_notes T f c nts = Inr c' \<Longrightarrow> list_all (\<lambda>m. \<not> is_prstatus_note T f m) nts \<Longrightarrow>
     prstatus c' = prstatus c"
proof (induction nts arbitrary: c)
  case Nil
  then show ?case by simp
next
  case (Cons nt nts)
  from Cons.prems(1) obtain c1 where
    s: "process_note T f c nt = Inr c1" and r: "process_notes T f c1 nts = Inr c'"
    by (auto split: sum.splits)
  have "prstatus c1 = prstatus c"
    using process_note_prstatus [OF s] Cons.prems(2) by simp
  with Cons.IH [OF r] Cons.prems(2) show ?case by simp
qed

lemma process_notes_prstatus_last:
  assumes "process_notes T f c (ns1 @ n # ns2) = Inr c'"
    and "is_prstatus_note T f n"
    and "list_all (\<lambda>m. \<not> is_prstatus_note T f m) ns2"
  shows "prstatus c' = Some (take (T (arch f)) (n_desc n))"
proof -
  from assms(1) obtain c1 c2 where
    "process_notes T f c ns1 = Inr c1"
    and s: "process_note T f c1 n = Inr c2" and r: "process_notes T f c2 ns2 = Inr c'"
    by (auto simp: process_notes_append split: sum.splits)
  have "prstatus c2 = Some (take (T (arch f)) (n_desc n))"
    using process_note_prstatus [OF s] assms(2) by simp
  with process_notes_prstatus_unchanged [OF r assms(3)] show ?thesis by simp
qed

section \<open>The scan of the notes and the search for the stack\<close>

lemma scan_invariant:
  assumes "process_segments T f segs c = Inr c'" and "P c"
    and "\<And>c nt c'. P c \<Longrightarrow> process_note T f c nt = Inr c' \<Longrightarrow> P c'"
  shows "P c'"
  using process_notes_invariant [of P T f c "file_notes f segs" c']
    process_segments_notes [OF assms(1)] assms(2,3) by blast

lemma anchor_positive: "0 \<le> v \<Longrightarrow> 0 < (v AND NOT 0xfff) + (0x1000 :: int)"
proof -
  assume "0 \<le> v"
  have "(0xfff :: int) = mask 12"
    by (simp add: mask_eq_exp_minus_1)
  then have "v AND NOT 0xfff = 2 ^ 12 * (v div 2 ^ 12)"
    by (simp only: and_not_mask_int)
  with \<open>0 \<le> v\<close> show ?thesis
    by (simp add: pos_imp_zdiv_nonneg_iff)
qed

lemma process_note_anchor_ok:
  assumes "anchor_ok c" and "process_note T f c nt = Inr c'"
  shows "anchor_ok c'"
proof -
  from assms(2) obtain c1 c2 where
    s1: "c1 = c \<or> (is_prstatus_note T f nt \<and>
               c1 = c\<lparr>NT_PRSTATUS := Some nt,
                       prstatus := Some (take (T (arch f)) (n_desc nt))\<rparr>)"
    and s2: "(n_type nt \<noteq> NT_FILE \<and> c2 = c1) \<or> (n_type nt = NT_FILE \<and> parse_nt_file f c1 nt = Inr c2)"
    and s3: "(n_type nt \<noteq> NT_AUXV \<and> c' = c2) \<or> (n_type nt = NT_AUXV \<and> parse_auxv f c2 nt = Inr c')"
    by (rule process_note_steps) blast
  have "anchor_ok c1"
    using s1 assms(1) by (auto simp: anchor_ok_def)
  then have "anchor_ok c2"
    using s2 by (auto simp: anchor_ok_def dest!: parse_nt_file_frame)
  then show ?thesis
    using s3 anchor_positive by (auto simp: anchor_ok_def dest!: parse_auxv_frame)
qed

lemma scan_anchor_ok:
  assumes "process_segments T f segs Core_new = Inr c"
  shows "anchor_ok c"
proof (rule scan_invariant [OF assms, of anchor_ok])
  show "anchor_ok Core_new"
    by (simp add: anchor_ok_def Core_new_def)
qed (rule process_note_anchor_ok)



lemma find_stack_no_anchor:
  "(\<And>a. stack c \<noteq> StackAddr a) \<Longrightarrow> find_stack f rs c = Inr c"
proof (induction rs)
  case Nil
  show ?case by simp
next
  case (Cons r rs)
  have "\<not> stop_eq_stack (stop (heap c ! r)) (stack c)"
    using Cons.prems by (cases "stack c") auto
  with Cons show ?case by simp
qed

lemma find_stack_anchor:
  assumes "stack c = StackAddr a"
  shows "find_stack f rs c =
           (case List.find (\<lambda>r. stop (heap c ! r) = a) rs of
              None \<Rightarrow> Inr c
            | Some r \<Rightarrow>
                parse_stack f
                  (c\<lparr>heap := (heap c)[r := (heap c ! r)\<lparr>name := Some ''[stack]''\<rparr>],
                     stack := StackMap r\<rparr>))"
proof (induction rs)
  case Nil
  show ?case by simp
next
  case (Cons r rs)
  show ?case
  proof (cases "stop (heap c ! r) = a")
    case False
    with Cons assms show ?thesis by simp
  next
    case True
    let ?c1 = "c\<lparr>heap := (heap c)[r := (heap c ! r)\<lparr>name := Some ''[stack]''\<rparr>],
                 stack := StackMap r\<rparr>"
    have "(case parse_stack f ?c1 of Inl e \<Rightarrow> Inl e | Inr c' \<Rightarrow> find_stack f rs c')
            = parse_stack f ?c1"
    proof (cases "parse_stack f ?c1")
      case (Inl e)
      then show ?thesis by simp
    next
      case (Inr c2)
      then have "c2 = ?c1\<lparr>env := env c2\<rparr>"
        by (rule parse_stack_frame)
      then have "stack c2 = StackMap r"
        by (metis Core.select_convs(6) Core.surjective Core.update_convs(6) Core.update_convs(8))
      then have "find_stack f rs c2 = Inr c2"
        by (intro find_stack_no_anchor) simp
      with Inr show ?thesis by simp
    qed
    with True assms show ?thesis by simp
  qed
qed

text \<open>The last step of the construction, after the scan of the notes.\<close>

lemma Core_init_final:
  assumes "process_segments T f (segments f) Core_new = Inr c"
  shows "Core_init T f =
           (case stack c of
              StackAddr a \<Rightarrow>
                (if mappings c = [] then Inr c
                 else (case List.find (\<lambda>r. stop (heap c ! r) = a) (mappings c) of
                         None \<Rightarrow> Inr c
                       | Some r \<Rightarrow>
                           parse_stack f
                             (c\<lparr>heap := (heap c)[r := (heap c ! r)\<lparr>name := Some ''[stack]''\<rparr>],
                                stack := StackMap r\<rparr>)))
            | _ \<Rightarrow> Inr c)"
proof (cases "stack c")
  case StackNone
  with assms show ?thesis by (simp add: Core_init_def)
next
  case (StackAddr a)
  have "0 < a"
    using scan_anchor_ok [OF assms] StackAddr by (simp add: anchor_ok_def)
  with assms StackAddr show ?thesis
    by (simp add: Core_init_def find_stack_anchor)
next
  case (StackMap r)
  with scan_anchor_ok [OF assms] show ?thesis
    by (simp add: anchor_ok_def)
qed
section \<open>The mapping list\<close>

lemma build_mappings_sorted:
  assumes "build_mappings w segs desc = Inr (refs, ms, ads)"
  shows "refs = sort_key (\<lambda>r. start (ms ! r)) [0..<length ms]"
    and "sorted (map (\<lambda>r. start (ms ! r)) refs)"
proof -
  show "refs = sort_key (\<lambda>r. start (ms ! r)) [0..<length ms]"
    using assms by (auto simp: build_mappings_def split: sum.splits prod.splits)
  then show "sorted (map (\<lambda>r. start (ms ! r)) refs)"
    by (simp add: sorted_sort_key)
qed

text \<open>What a note does to the mappings: a mapped-file note replaces them, any other
  note leaves them.\<close>

lemma process_note_mappings:
  assumes "process_note T f c nt = Inr c'"
  shows "if n_type nt = NT_FILE
         then build_mappings (arch_bytes (arch f)) (segments f) (n_desc nt)
                = Inr (mappings c', heap c', addresses c')
         else mappings c' = mappings c \<and> heap c' = heap c \<and> addresses c' = addresses c"
proof -
  from assms obtain c1 c2 where
    s1: "c1 = c \<or> (is_prstatus_note T f nt \<and>
               c1 = c\<lparr>NT_PRSTATUS := Some nt,
                       prstatus := Some (take (T (arch f)) (n_desc nt))\<rparr>)"
    and s2: "(n_type nt \<noteq> NT_FILE \<and> c2 = c1) \<or> (n_type nt = NT_FILE \<and> parse_nt_file f c1 nt = Inr c2)"
    and s3: "(n_type nt \<noteq> NT_AUXV \<and> c' = c2) \<or> (n_type nt = NT_AUXV \<and> parse_auxv f c2 nt = Inr c')"
    by (rule process_note_steps) blast
  have a: "mappings c1 = mappings c \<and> heap c1 = heap c \<and> addresses c1 = addresses c"
    using s1 by auto
  have b: "mappings c' = mappings c2 \<and> heap c' = heap c2 \<and> addresses c' = addresses c2"
    using s3 by (auto dest!: parse_auxv_frame)
  show ?thesis
  proof (cases "n_type nt = NT_FILE")
    case False
    with s2 a b show ?thesis by simp
  next
    case True
    with s2 have "parse_nt_file f c1 nt = Inr c2" by simp
    then obtain refs ms ads where
      "build_mappings (arch_bytes (arch f)) (segments f) (n_desc nt) = Inr (refs, ms, ads)"
      "c2 = c1\<lparr>mappings := refs, addresses := ads, heap := ms\<rparr>"
      using parse_nt_file_frame by blast
    with True b show ?thesis by simp
  qed
qed



lemma process_note_starts_sorted:
  assumes "starts_sorted c" and "process_note T f c nt = Inr c'"
  shows "starts_sorted c'"
proof (cases "n_type nt = NT_FILE")
  case False
  with process_note_mappings [OF assms(2)] assms(1) show ?thesis
    by (simp add: starts_sorted_def mapping_list_def)
next
  case True
  with process_note_mappings [OF assms(2)]
  have "build_mappings (arch_bytes (arch f)) (segments f) (n_desc nt)
          = Inr (mappings c', heap c', addresses c')"
    by simp
  then have "sorted (map (\<lambda>r. start (heap c' ! r)) (mappings c'))"
    by (rule build_mappings_sorted(2))
  then show ?thesis
    by (simp add: starts_sorted_def mapping_list_def comp_def)
qed

lemma scan_starts_sorted:
  assumes "process_segments T f segs Core_new = Inr c"
  shows "starts_sorted c"
proof (rule scan_invariant [OF assms, of starts_sorted])
  show "starts_sorted Core_new"
    by (simp add: starts_sorted_def mapping_list_def Core_new_def)
qed (rule process_note_starts_sorted)

text \<open>The search for the stack changes one name in the store, at most.\<close>

lemma find_stack_heap:
  assumes "find_stack f rs c = Inr c'"
  shows "mappings c' = mappings c \<and> addresses c' = addresses c \<and>
         (heap c' = heap c \<or>
          (\<exists>r. heap c' = (heap c)[r := (heap c ! r)\<lparr>name := Some ''[stack]''\<rparr>]))"
proof (cases "stack c")
  case StackNone
  then have "find_stack f rs c = Inr c" by (intro find_stack_no_anchor) simp
  with assms show ?thesis by simp
next
  case (StackMap r)
  then have "find_stack f rs c = Inr c" by (intro find_stack_no_anchor) simp
  with assms show ?thesis by simp
next
  case (StackAddr a)
  show ?thesis
  proof (cases "List.find (\<lambda>r. stop (heap c ! r) = a) rs")
    case None
    with find_stack_anchor [OF StackAddr, of f rs] assms show ?thesis by simp
  next
    case (Some r)
    let ?c1 = "c\<lparr>heap := (heap c)[r := (heap c ! r)\<lparr>name := Some ''[stack]''\<rparr>],
                 stack := StackMap r\<rparr>"
    from Some find_stack_anchor [OF StackAddr, of f rs] assms
    have "parse_stack f ?c1 = Inr c'" by simp
    then have eq: "c' = ?c1\<lparr>env := env c'\<rparr>"
      by (rule parse_stack_frame)
    have "mappings c' = mappings c" "addresses c' = addresses c"
      "heap c' = (heap c)[r := (heap c ! r)\<lparr>name := Some ''[stack]''\<rparr>]"
      by (subst eq, simp)+
    then show ?thesis by blast
  qed
qed

lemma renamed_nth:
  "same_but_stack_name ((h[r := (h ! r)\<lparr>name := Some ''[stack]''\<rparr>]) ! i) (h ! i)"
proof (cases "r < length h")
  case False
  then show ?thesis by (simp add: same_but_stack_name_def list_update_beyond)
next
  case True
  then show ?thesis
    by (cases "i = r") (simp_all add: same_but_stack_name_def)
qed

lemma same_but_stack_name_fields:
  "same_but_stack_name m' m \<Longrightarrow> start m' = start m \<and> stop m' = stop m \<and> flags m' = flags m"
  by (auto simp: same_but_stack_name_def)

lemma Core_init_mappings:
  assumes "Core_init T f = Inr c'"
  obtains c where "process_notes T f Core_new (file_notes f (segments f)) = Inr c"
    and "starts_sorted c"
    and "mappings c' = mappings c" and "addresses c' = addresses c"
    and "length (heap c') = length (heap c)"
    and "\<And>i. same_but_stack_name (heap c' ! i) (heap c ! i)"
proof -
  from assms obtain c where
    scan: "process_segments T f (segments f) Core_new = Inr c"
    and nts: "process_notes T f Core_new (file_notes f (segments f)) = Inr c"
    and fin: "c' = c \<or> find_stack f (mappings c) c = Inr c'"
    by (rule Core_init_scan)
  from fin have h: "mappings c' = mappings c \<and> addresses c' = addresses c \<and>
         (heap c' = heap c \<or>
          (\<exists>r. heap c' = (heap c)[r := (heap c ! r)\<lparr>name := Some ''[stack]''\<rparr>]))"
    using find_stack_heap by blast
  show thesis
  proof (rule that [OF nts scan_starts_sorted [OF scan]])
    show "mappings c' = mappings c" "addresses c' = addresses c"
      using h by simp_all
    show "length (heap c') = length (heap c)"
      using h by auto
    show "same_but_stack_name (heap c' ! i) (heap c ! i)" for i
    proof -
      from h consider "heap c' = heap c"
        | r where "heap c' = (heap c)[r := (heap c ! r)\<lparr>name := Some ''[stack]''\<rparr>]"
        by blast
      then show ?thesis
      proof cases
        case 1
        then show ?thesis by (simp add: same_but_stack_name_def)
      next
        case 2
        then show ?thesis by (simp add: renamed_nth)
      qed
    qed
  qed
qed
section \<open>The auxiliary vector\<close>

lemma arch_bytes_pos: "0 < arch_bytes ar"
  by (cases ar) simp_all

lemma div_plus_less: "0 < s \<Longrightarrow> r < s \<Longrightarrow> (k * s + r) div s = (k::nat)"
  by simp

lemma range_len_whole: "0 < s \<Longrightarrow> range_len (k * s) s = k"
proof -
  assume s: "0 < s"
  then have "k * s + s - 1 = k * s + (s - 1)" by simp
  moreover have "(k * s + (s - 1)) div s = k"
    using s by (intro div_plus_less) simp_all
  ultimately show ?thesis
    by (simp add: range_len_def)
qed

lemma range_len_half: "0 < w \<Longrightarrow> range_len (k * (2 * w) + w) (2 * w) = Suc k"
proof -
  assume w: "0 < w"
  then have "k * (2 * w) + w + 2 * w - 1 = Suc k * (2 * w) + (w - 1)" by simp
  moreover have "(Suc k * (2 * w) + (w - 1)) div (2 * w) = Suc k"
    using w by (intro div_plus_less) simp_all
  ultimately show ?thesis
    by (simp only: range_len_def)
qed

lemma auxv_loop_whole:
  "length t = n * (2 * w) \<Longrightarrow> \<exists>c'. auxv_loop w n t c = Inr (c', [])"
proof (induction n arbitrary: t c)
  case 0
  then show ?case by simp
next
  case (Suc n)
  let ?t1 = "drop w t" and ?t2 = "drop w (drop w t)"
  have k: "unpack w t = Inr (le_int (take w t), ?t1)"
    using Suc.prems by (simp add: unpack_def)
  have v: "unpack w ?t1 = Inr (le_int (take w ?t1), ?t2)"
    using Suc.prems by (simp add: unpack_def)
  have "length ?t2 = n * (2 * w)"
    using Suc.prems by simp
  from Suc.IH [OF this] k v show ?case
    by simp
qed

lemma auxv_loop_trailing_word:
  "length t = n * (2 * w) + w \<Longrightarrow> 0 < w \<Longrightarrow> auxv_loop w (Suc n) t c = Inl EOFError"
proof (induction n arbitrary: t c)
  case 0
  then show ?case by (simp add: unpack_def)
next
  case (Suc n)
  let ?t1 = "drop w t" and ?t2 = "drop w (drop w t)"
  have k: "unpack w t = Inr (le_int (take w t), ?t1)"
    using Suc.prems by (simp add: unpack_def)
  have v: "unpack w ?t1 = Inr (le_int (take w ?t1), ?t2)"
    using Suc.prems by (simp add: unpack_def)
  have "length ?t2 = n * (2 * w) + w"
    using Suc.prems by simp
  from Suc.IH [OF this Suc.prems(2)] k v show ?case
    by (simp del: auxv_loop.simps add: auxv_loop.simps(2) [of w "Suc n" t])
qed


section \<open>Exceptions of the note iterator\<close>

lemma consume_notes_raises:
  "snd gen = Some e \<Longrightarrow> isl (consume_notes T f c gen)"
  by (simp add: consume_notes_def split: sum.splits)

lemma process_segments_raises:
  "s \<in> set segs \<Longrightarrow> p_type s = PT_NOTE \<Longrightarrow> snd (iter_notes s (stream f)) = Some e \<Longrightarrow>
     isl (process_segments T f segs c)"
proof (induction segs arbitrary: c)
  case Nil
  then show ?case by simp
next
  case (Cons s' ss)
  show ?case
  proof (cases "s' = s")
    case True
    with Cons.prems consume_notes_raises [of "iter_notes s (stream f)" e T f c]
    show ?thesis by (auto split: sum.splits)
  next
    case False
    with Cons.prems have "s \<in> set ss" by simp
    from Cons.IH [OF this Cons.prems(2,3)] show ?thesis
      by (auto split: sum.splits)
  qed
qed

section \<open>The claims\<close>

text \<open>
  Claim C1, as amended. In every constructed core object the mapping list is sorted by
  start address, ascending. Mappings with equal start addresses all stay in the list,
  so the order is strict exactly when the start addresses are pairwise distinct; that
  the mappings do not overlap is not ensured.
\<close>

theorem mappings_sorted_by_start:
  assumes "Core_init T f = Inr c"
  shows "sorted (map start (mapping_list c))
       \<and> strictly_sorted_by_start (mapping_list c) = distinct (map start (mapping_list c))"
proof -
  from assms obtain c0 where
    s: "starts_sorted c0" and m: "mappings c = mappings c0"
    and h: "\<And>i. same_but_stack_name (heap c ! i) (heap c0 ! i)"
    by (rule Core_init_mappings) blast
  have "start (heap c ! i) = start (heap c0 ! i)" for i
    using h [of i] by (simp add: same_but_stack_name_fields)
  then have "map start (mapping_list c) = map start (mapping_list c0)"
    by (simp add: mapping_list_def m)
  with s have sorted: "sorted (map start (mapping_list c))"
    by (simp add: starts_sorted_def)
  have "strictly_sorted_by_start (mapping_list c) = sorted_wrt (<) (map start (mapping_list c))"
    by (simp add: strictly_sorted_by_start_def sorted_wrt_map)
  with sorted show ?thesis
    by (simp add: strict_sorted_iff)
qed

theorem mappings_sorted_by_start_witness:
  "\<not> isl (Core_init linux_types example_core_dup)
   \<and> map start (mapping_list (projr (Core_init linux_types example_core_dup)))
       = [0x1000, 0x2000, 0x2000]
   \<and> sorted (map start (mapping_list (projr (Core_init linux_types example_core_dup))))
   \<and> strictly_sorted_by_start (mapping_list (projr (Core_init linux_types example_core_dup)))
       = distinct (map start (mapping_list (projr (Core_init linux_types example_core_dup))))"
proof -
  have ok: "\<not> isl (Core_init linux_types example_core_dup)"
    by code_simp
  then have run: "Core_init linux_types example_core_dup
                    = Inr (projr (Core_init linux_types example_core_dup))"
    by simp
  have starts: "map start (mapping_list (projr (Core_init linux_types example_core_dup)))
                  = [0x1000, 0x2000, 0x2000]"
    by code_simp
  show ?thesis
    using mappings_sorted_by_start [OF run] ok starts by simp
qed

theorem mappings_strict_disjoint_counterexample:
  "\<not> isl (Core_init linux_types example_core_dup)
   \<and> map (\<lambda>m. (name m, start m, stop m))
        (mapping_list (projr (Core_init linux_types example_core_dup)))
       = [(None, 0x1000, 0x3000), (Some ''a'', 0x2000, 0x3000), (Some ''b'', 0x2000, 0x4000)]
   \<and> \<not> strictly_sorted_by_start (mapping_list (projr (Core_init linux_types example_core_dup)))
   \<and> \<not> non_overlapping (mapping_list (projr (Core_init linux_types example_core_dup)))"
  by code_simp

text \<open>
  Claim C2. In a dump whose stack holds the address of the last environment string in
  a word that is followed by a non-zero word, the slot is located (at \<open>0xfdc\<close>), the
  word after it is 1, and the second \<^verbatim>\<open>assert\<close> of \<^verbatim>\<open>_parse_stack\<close> fails outside
  the \<^verbatim>\<open>try\<close>: the \<^verbatim>\<open>AssertionError\<close> leaves \<^verbatim>\<open>Core.__init__\<close>, and no object
  is constructed.
\<close>

theorem failed_terminator_check_leaves_init:
  "scan_string_start (memory example_core_badenvp) 0xff3 = Inr 0xff0
   \<and> scan_envp_end I386 (memory example_core_badenvp) 0xff0 0xff0 = Inr 0xfdc
   \<and> mem_unpack 4 (memory example_core_badenvp) (0xfdc + 4) = Inr 1
   \<and> isl (Core_init linux_types example_core_badenvp)
   \<and> projl (Core_init linux_types example_core_badenvp) = AssertionError"
  by code_simp




text \<open>
  Claim C4, as amended. A core object holds at most one register state (the one
  attribute \<open>prstatus\<close>), and every process-status note of the right size overwrites
  it: when the scan meets several such notes, the register state of the finished
  object is the one copied from the last of them, not from the first.
\<close>

theorem prstatus_last_note_wins:
  assumes "Core_init T f = Inr c'"
    and "file_notes f (segments f) = ns1 @ n # ns2"
    and "is_prstatus_note T f n"
    and "list_all (\<lambda>m. \<not> is_prstatus_note T f m) ns2"
  shows "prstatus c' = Some (take (T (arch f)) (n_desc n))"
proof -
  from assms(1) obtain c where
    scan: "process_notes T f Core_new (file_notes f (segments f)) = Inr c"
    and fin: "c' = c \<or> find_stack f (mappings c) c = Inr c'"
    by (rule Core_init_scan)
  have "prstatus c = Some (take (T (arch f)) (n_desc n))"
    using scan assms(2-4) by (simp add: process_notes_prstatus_last)
  moreover have "prstatus c' = prstatus c"
    using fin by (auto dest: find_stack_frame)
  ultimately show ?thesis by simp
qed

theorem prstatus_last_note_wins_witness:
  "\<not> isl (Core_init linux_types example_two_prstatus)
   \<and> map n_type (file_notes example_two_prstatus (segments example_two_prstatus)) = [1, 1, 6]
   \<and> map n_descsz (file_notes example_two_prstatus (segments example_two_prstatus))
       = [144, 144, 16]
   \<and> prstatus (projr (Core_init linux_types example_two_prstatus))
       = Some (replicate 144 (CHR 0x02))"
proof -
  let ?f = example_two_prstatus
  let ?n1 = "\<lparr>n_namesz = 5, n_descsz = 144, n_type = 1, n_offset = 0, n_name = ''CORE'',
              n_desc = replicate 144 (CHR 0x01), n_size = 164\<rparr>"
  let ?n2 = "\<lparr>n_namesz = 5, n_descsz = 144, n_type = 1, n_offset = 164, n_name = ''CORE'',
              n_desc = replicate 144 (CHR 0x02), n_size = 164\<rparr>"
  let ?n3 = "\<lparr>n_namesz = 5, n_descsz = 16, n_type = 6, n_offset = 328, n_name = ''CORE'',
              n_desc = le_bytes 4 31 @ le_bytes 4 0xff4 @ le_bytes 4 0 @ le_bytes 4 0,
              n_size = 36\<rparr>"
  have ok: "\<not> isl (Core_init linux_types ?f)"
    by code_simp
  then have run: "Core_init linux_types ?f = Inr (projr (Core_init linux_types ?f))"
    by simp
  have "file_notes ?f (segments ?f) = [?n1, ?n2, ?n3]"
    by code_simp
  then have nts: "file_notes ?f (segments ?f) = [?n1] @ ?n2 # [?n3]"
    by simp
  have q: "is_prstatus_note linux_types ?f ?n2"
    by (simp add: is_prstatus_note_def example_two_prstatus_def NT_GNU_ABI_TAG_def)
  have rest: "list_all (\<lambda>m. \<not> is_prstatus_note linux_types ?f m) [?n3]"
    by (simp add: is_prstatus_note_def example_two_prstatus_def)
  have ar: "arch ?f = I386"
    by (simp add: example_two_prstatus_def)
  show ?thesis
    using prstatus_last_note_wins [OF run nts q rest] ok
    by (simp add: nts ar)
qed

theorem prstatus_first_note_counterexample:
  "list_all (is_prstatus_note linux_types example_two_prstatus)
     (take 2 (file_notes example_two_prstatus (segments example_two_prstatus)))
   \<and> map n_desc (take 2 (file_notes example_two_prstatus (segments example_two_prstatus)))
       = [replicate 144 (CHR 0x01), replicate 144 (CHR 0x02)]
   \<and> prstatus (projr (Core_init linux_types example_two_prstatus))
       = Some (replicate 144 (CHR 0x02))
   \<and> prstatus (projr (Core_init linux_types example_two_prstatus))
       \<noteq> Some (replicate 144 (CHR 0x01))
   \<and> \<not> isl (Core_init linux_types example_two_prstatus)"
  by code_simp

text \<open>
  Claim C5. For the example file the environment records \<open>A\<close> at \<open>0xff0\<close>, where the
  string \<open>A=b\<close> stands, and \<^verbatim>\<open>getenv\<close> of \<open>A\<close> returns the text \<open>b\<close>, not an
  address; \<^verbatim>\<open>getenv\<close> of a name that is not set fails.
\<close>

theorem getenv_returns_the_text:
  "env (projr (Core_init linux_types example_core)) ''A'' = Some 0xff0
   \<and> mem_string (memory example_core) 0xff0 = Inr ''A=b''
   \<and> getenv example_core (projr (Core_init linux_types example_core)) ''A'' = Inr ''b''
   \<and> env (projr (Core_init linux_types example_core)) ''B'' = None
   \<and> getenv example_core (projr (Core_init linux_types example_core)) ''B''
       = Inl PwnlibException"
  by code_simp

text \<open>
  Claim C6, as amended. When the scan of the notes leaves a stack anchor and a
  non-empty mapping list, the construction looks for the first mapping of the list
  whose end address equals the anchor. If there is one, it is renamed \<open>[stack]\<close>,
  recorded as the stack mapping, and the stack is parsed, once; if no mapping ends at
  the anchor, the object is returned as the scan left it and the stack is not parsed.
  A mapping that merely contains the anchor is not looked for.
\<close>

theorem stack_mapping_found_by_end_address:
  assumes "process_segments T f (segments f) Core_new = Inr c"
    and "stack c = StackAddr a"
    and "mappings c \<noteq> []"
  shows "Core_init T f =
           (case List.find (\<lambda>r. stop (heap c ! r) = a) (mappings c) of
              None \<Rightarrow> Inr c
            | Some r \<Rightarrow>
                parse_stack f
                  (c\<lparr>heap := (heap c)[r := (heap c ! r)\<lparr>name := Some ''[stack]''\<rparr>],
                     stack := StackMap r\<rparr>))"
  using Core_init_final [OF assms(1)] assms(2,3) by simp

theorem stack_mapping_found_by_end_address_witness:
  "\<not> isl (process_segments linux_types example_core (segments example_core) Core_new)
   \<and> stack (projr (process_segments linux_types example_core (segments example_core) Core_new))
       = StackAddr 0x1000
   \<and> mappings (projr (process_segments linux_types example_core (segments example_core) Core_new))
       = [0]
   \<and> stop (heap (projr (process_segments linux_types example_core (segments example_core)
                          Core_new)) ! 0) = 0x1000
   \<and> Core_init linux_types example_core =
       parse_stack example_core
         ((projr (process_segments linux_types example_core (segments example_core) Core_new))
            \<lparr>heap := (heap (projr (process_segments linux_types example_core
                                    (segments example_core) Core_new)))
                       [0 := (heap (projr (process_segments linux_types example_core
                                    (segments example_core) Core_new)) ! 0)
                              \<lparr>name := Some ''[stack]''\<rparr>],
             stack := StackMap 0\<rparr>)"
proof -
  let ?c = "projr (process_segments linux_types example_core (segments example_core) Core_new)"
  have ok: "\<not> isl (process_segments linux_types example_core (segments example_core) Core_new)"
    by code_simp
  then have run: "process_segments linux_types example_core (segments example_core) Core_new
                    = Inr ?c"
    by simp
  have st: "stack ?c = StackAddr 0x1000"
    by code_simp
  have ms: "mappings ?c = [0]"
    by code_simp
  have e: "stop (heap ?c ! 0) = 0x1000"
    by code_simp
  have ne: "mappings ?c \<noteq> []"
    by (simp add: ms)
  show ?thesis
    using stack_mapping_found_by_end_address [OF run st ne] ok st e
    by (simp add: ms)
qed

theorem stack_mapping_containing_anchor_counterexample:
  "\<not> isl (Core_init linux_types example_core_wide)
   \<and> stack (projr (Core_init linux_types example_core_wide)) = StackAddr 0x1000
   \<and> map (\<lambda>m. (name m, start m, stop m))
        (mapping_list (projr (Core_init linux_types example_core_wide)))
       = [(None, 0xfd0, 0x2000)]
   \<and> env (projr (Core_init linux_types example_core_wide)) ''A'' = None
   \<and> env (projr (parse_stack example_core_wide
              ((projr (Core_init linux_types example_core_wide))\<lparr>stack := StackMap 0\<rparr>))) ''A''
       = Some 0xff0"
  by code_simp

text \<open>
  Claim C7, as amended. The note iterator makes no check against the end of its range.
  A note that starts inside the range is read from the file as far as its declared
  sizes reach: when its image runs past the end of the range, and the file holds the
  bytes, the note is yielded whole and the iteration ends without an exception. An
  exception of the iterator (the stream ends inside a header, or a name field holds no
  terminator) ends the iteration, and the construction of the core object fails, so
  the failure is not confined to that note.
\<close>

theorem iter_notes_ignores_range_end:
  "(well_formed_note x \<and> p_offset seg = length pre \<and> 0 < p_filesz seg
      \<and> p_filesz seg \<le> length (note_image x) \<longrightarrow>
      snd (iter_notes seg (pre @ note_image x @ post)) = None
      \<and> map n_desc (fst (iter_notes seg (pre @ note_image x @ post)))
          = [take (r_descsz x) (r_desc_field x)]
      \<and> map n_size (fst (iter_notes seg (pre @ note_image x @ post)))
          = [length (note_image x)])
   \<and> (s \<in> set (segments f) \<and> p_type s = PT_NOTE \<and> snd (iter_notes s (stream f)) = Some e
      \<longrightarrow> isl (Core_init T f))"
proof (intro conjI impI)
  assume a: "well_formed_note x \<and> p_offset seg = length pre \<and> 0 < p_filesz seg
      \<and> p_filesz seg \<le> length (note_image x)"
  let ?strm = "pre @ note_image x @ post"
  let ?end = "p_offset seg + p_filesz seg"
  let ?n = "\<lparr>n_namesz = r_namesz x, n_descsz = r_descsz x, n_type = r_type x,
             n_offset = length pre,
             n_name = takeWhile (\<lambda>c. c \<noteq> CHR 0x00) (r_name_field x),
             n_desc = take (r_descsz x) (r_desc_field x),
             n_size = length (note_image x)\<rparr>"
  have rd: "read_note ?strm (p_offset seg) = Inr ?n"
    using a read_note_image [of x pre post] by simp
  have lt: "p_offset seg < ?end"
    using a by simp
  have "iter_notes_from ?strm ?end (p_offset seg + n_size ?n) = ([], None)"
    using a by (subst iter_notes_from.simps) simp
  from iter_notes_from_step [OF lt rd this]
  have r: "iter_notes seg ?strm = ([?n], None)"
    by (simp add: iter_notes_def)
  show "snd (iter_notes seg ?strm) = None"
    and "map n_desc (fst (iter_notes seg ?strm)) = [take (r_descsz x) (r_desc_field x)]"
    and "map n_size (fst (iter_notes seg ?strm)) = [length (note_image x)]"
    by (simp_all add: r)
next
  assume "s \<in> set (segments f) \<and> p_type s = PT_NOTE \<and> snd (iter_notes s (stream f)) = Some e"
  then have "isl (process_segments T f (segments f) Core_new)"
    using process_segments_raises [of s "segments f" f e T Core_new] by simp
  then show "isl (Core_init T f)"
    by (auto simp: Core_init_def split: sum.splits)
qed

theorem iter_notes_ignores_range_end_witness:
  "well_formed_note
     \<lparr>r_namesz = 5, r_descsz = 8, r_type = NT_AUXV,
      r_name_field = ''CORE'' @ replicate 4 (CHR 0x00),
      r_desc_field = le_bytes 4 31 @ le_bytes 4 0xff4\<rparr>
   \<and> snd (iter_notes (hd (segments example_core_short_range))
            (stream example_core_short_range)) = None
   \<and> map n_size (fst (iter_notes (hd (segments example_core_short_range))
                        (stream example_core_short_range))) = [28]
   \<and> p_filesz (hd (segments example_core_short_range)) = 20
   \<and> hd (segments example_core_truncated) \<in> set (segments example_core_truncated)
   \<and> snd (iter_notes (hd (segments example_core_truncated))
            (stream example_core_truncated)) = Some ELFParseError
   \<and> isl (Core_init linux_types example_core_truncated)"
proof -
  let ?x = "\<lparr>r_namesz = 5, r_descsz = 8, r_type = NT_AUXV,
             r_name_field = ''CORE'' @ replicate 4 (CHR 0x00),
             r_desc_field = le_bytes 4 31 @ le_bytes 4 0xff4\<rparr>"
  let ?seg = "hd (segments example_core_short_range)"
  let ?s = "hd (segments example_core_truncated)"
  have wf: "well_formed_note ?x"
    by (simp add: well_formed_note_def roundup_2 NT_AUXV_def)
  have st: "stream example_core_short_range = [] @ note_image ?x @ ''tail''"
    by code_simp
  have sg: "p_offset ?seg = length ([] :: string)" "0 < p_filesz ?seg" "p_filesz ?seg = 20"
    "p_filesz ?seg \<le> length (note_image ?x)"
    by (simp_all add: example_core_short_range_def note_image_def)
  have tr: "?s \<in> set (segments example_core_truncated)" "p_type ?s = PT_NOTE"
    by (simp_all add: example_core_truncated_def)
  have ex: "snd (iter_notes ?s (stream example_core_truncated)) = Some ELFParseError"
    by code_simp
  have len: "length (note_image ?x) = 28"
    by (simp add: note_image_def)
  show ?thesis
    using iter_notes_ignores_range_end
      [of ?x ?seg "[]" "''tail''" ?s example_core_truncated ELFParseError linux_types]
      wf sg tr ex len
    by (simp add: st)
qed

theorem iter_notes_truncated_counterexample:
  "p_offset (hd (segments example_core_short_range))
     + p_filesz (hd (segments example_core_short_range)) = 20
   \<and> map (\<lambda>n. (n_offset n, n_size n, n_descsz n, length (n_desc n)))
        (fst (iter_notes (hd (segments example_core_short_range))
                (stream example_core_short_range)))
       = [(0, 28, 8, 8)]
   \<and> snd (iter_notes (hd (segments example_core_short_range))
            (stream example_core_short_range)) = None
   \<and> \<not> isl (Core_init linux_types example_core_short_range)
   \<and> at_execfn (projr (Core_init linux_types example_core_short_range)) = Some 0xff4
   \<and> map n_offset (fst (iter_notes (hd (segments example_core_truncated))
                          (stream example_core_truncated))) = [0]
   \<and> snd (iter_notes (hd (segments example_core_truncated))
            (stream example_core_truncated)) = Some ELFParseError
   \<and> isl (Core_init linux_types example_core_truncated)
   \<and> projl (Core_init linux_types example_core_truncated) = ELFParseError"
  by code_simp

text \<open>
  Claim C8. For a byte range that holds well-formed notes back to back, the iterator
  ends without an exception and yields one note per image; the total size it records
  for every yielded note is the header size plus the name and descriptor sizes, each
  rounded up to a multiple of four; and these sizes add up to the length of the range.
\<close>

theorem iter_notes_consumes_range:
  assumes "list_all well_formed_note xs"
    and "p_offset seg = length pre"
    and "p_filesz seg = length (concat (map note_image xs))"
  shows "snd (iter_notes seg (pre @ concat (map note_image xs) @ post)) = None
       \<and> length (fst (iter_notes seg (pre @ concat (map note_image xs) @ post))) = length xs
       \<and> list_all (\<lambda>n. n_size n = Nhdr_sizeof + nat (roundup (int (n_namesz n)) 2)
                                    + nat (roundup (int (n_descsz n)) 2))
            (fst (iter_notes seg (pre @ concat (map note_image xs) @ post)))
       \<and> sum_list (map n_size (fst (iter_notes seg (pre @ concat (map note_image xs) @ post))))
           = p_filesz seg"
proof -
  let ?strm = "pre @ concat (map note_image xs) @ post"
  obtain ns r where it: "iter_notes seg ?strm = (ns, r)"
    by (cases "iter_notes seg ?strm")
  have wf: "\<forall>x\<in>set xs. well_formed_note x"
    using assms(1) by (simp add: list_all_iff)
  have "iter_notes_from ?strm (length pre + length (concat (map note_image xs)))
          (length pre) = (ns, r)"
    using it assms(2,3) by (simp add: iter_notes_def)
  from iter_notes_from_images [OF wf this]
  have r: "r = None" and sz: "map n_size ns = map (\<lambda>x. length (note_image x)) xs"
    by simp_all
  have len: "length ns = length xs"
    using sz by (metis length_map)
  have "sum_list (map n_size ns) = sum_list (map length (map note_image xs))"
    by (simp add: sz comp_def)
  then have total: "sum_list (map n_size ns) = p_filesz seg"
    by (simp add: assms(3) length_concat)
  have each: "list_all (\<lambda>n. n_size n = Nhdr_sizeof + nat (roundup (int (n_namesz n)) 2)
                                    + nat (roundup (int (n_descsz n)) 2)) ns"
    unfolding list_all_iff
  proof
    fix n assume "n \<in> set ns"
    then have "n \<in> set (fst (iter_notes_from ?strm (p_offset seg + p_filesz seg) (p_offset seg)))"
      using it by (simp add: iter_notes_def)
    then show "n_size n = Nhdr_sizeof + nat (roundup (int (n_namesz n)) 2)
                 + nat (roundup (int (n_descsz n)) 2)"
      by (rule iter_notes_from_sizes)
  qed
  show ?thesis
    using r len each total by (simp add: it)
qed

theorem iter_notes_consumes_range_witness:
  "list_all well_formed_note example_notes
   \<and> snd (iter_notes example_note_segment
            (''abcd'' @ concat (map note_image example_notes) @ ''zz'')) = None
   \<and> length (fst (iter_notes example_note_segment
            (''abcd'' @ concat (map note_image example_notes) @ ''zz''))) = 2
   \<and> sum_list (map n_size (fst (iter_notes example_note_segment
            (''abcd'' @ concat (map note_image example_notes) @ ''zz'')))) = 52"
proof -
  have wf: "list_all well_formed_note example_notes"
    by (simp add: example_notes_def well_formed_note_def roundup_2)
  have off: "p_offset example_note_segment = length ''abcd''"
    by (simp add: example_note_segment_def)
  have sz: "p_filesz example_note_segment = length (concat (map note_image example_notes))"
    by (simp add: example_note_segment_def example_notes_def note_image_def)
  show ?thesis
    using iter_notes_consumes_range [OF wf off sz, of "''zz''"] wf
    by (simp add: example_note_segment_def example_notes_def)
qed

text \<open>
  Claim C9, as amended. The decoder of the auxiliary vector takes one key and one value
  off the descriptor for every pair-sized step of its declared size. For a descriptor
  made of whole pairs it completes without error and leaves nothing of the descriptor
  unread. When one word follows the last whole pair, that word is not ignored: it is
  taken as a key, and the read of its value runs past the descriptor and fails.
\<close>

theorem auxv_pairs_and_trailing_word:
  assumes "length (n_desc nt) = n_descsz nt"
  shows "(n_descsz nt = k * (2 * arch_bytes (arch f)) \<longrightarrow>
            (\<exists>c'. auxv_loop (arch_bytes (arch f))
                     (range_len (n_descsz nt) (arch_bytes (arch f) * 2)) (n_desc nt) c
                     = Inr (c', [])
                   \<and> parse_auxv f c nt = Inr c'))
       \<and> (n_descsz nt = k * (2 * arch_bytes (arch f)) + arch_bytes (arch f) \<longrightarrow>
            parse_auxv f c nt = Inl EOFError)"
proof (intro conjI impI)
  let ?w = "arch_bytes (arch f)"
  have w: "0 < ?w" by (rule arch_bytes_pos)
  {
    assume e: "n_descsz nt = k * (2 * ?w)"
    then have "range_len (n_descsz nt) (?w * 2) = k"
      using range_len_whole [of "2 * ?w" k] w by (simp add: mult.commute)
    moreover obtain c' where "auxv_loop ?w k (n_desc nt) c = Inr (c', [])"
      using auxv_loop_whole [of "n_desc nt" k ?w c] assms e by auto
    ultimately show "\<exists>c'. auxv_loop ?w (range_len (n_descsz nt) (?w * 2)) (n_desc nt) c
                            = Inr (c', [])
                          \<and> parse_auxv f c nt = Inr c'"
      by (simp add: parse_auxv_def)
  }
  {
    assume o: "n_descsz nt = k * (2 * ?w) + ?w"
    then have "range_len (n_descsz nt) (?w * 2) = Suc k"
      using range_len_half [of ?w k] w by (simp add: mult.commute)
    moreover have "auxv_loop ?w (Suc k) (n_desc nt) c = Inl EOFError"
      using assms o w by (intro auxv_loop_trailing_word) simp_all
    ultimately show "parse_auxv f c nt = Inl EOFError"
      by (simp add: parse_auxv_def)
  }
qed

theorem auxv_pairs_and_trailing_word_witness:
  "length (le_bytes 4 31 @ le_bytes 4 0xff4 @ le_bytes 4 0 @ le_bytes 4 0)
     = 2 * (2 * arch_bytes (arch example_core))
   \<and> (\<exists>c'. auxv_loop (arch_bytes (arch example_core))
               (range_len 16 (arch_bytes (arch example_core) * 2))
               (le_bytes 4 31 @ le_bytes 4 0xff4 @ le_bytes 4 0 @ le_bytes 4 0) Core_new
               = Inr (c', [])
             \<and> parse_auxv example_core Core_new
                 \<lparr>n_namesz = 5, n_descsz = 16, n_type = NT_AUXV, n_offset = 28,
                  n_name = ''CORE'',
                  n_desc = le_bytes 4 31 @ le_bytes 4 0xff4 @ le_bytes 4 0 @ le_bytes 4 0,
                  n_size = 36\<rparr> = Inr c')
   \<and> length (le_bytes 4 31 @ le_bytes 4 0xff4 @ le_bytes 4 0)
       = 1 * (2 * arch_bytes (arch example_core)) + arch_bytes (arch example_core)
   \<and> parse_auxv example_core Core_new
         \<lparr>n_namesz = 5, n_descsz = 12, n_type = NT_AUXV, n_offset = 28,
          n_name = ''CORE'',
          n_desc = le_bytes 4 31 @ le_bytes 4 0xff4 @ le_bytes 4 0,
          n_size = 32\<rparr> = Inl EOFError"
proof -
  let ?even = "\<lparr>n_namesz = 5, n_descsz = 16, n_type = NT_AUXV, n_offset = 28,
                 n_name = ''CORE'',
                 n_desc = le_bytes 4 31 @ le_bytes 4 0xff4 @ le_bytes 4 0 @ le_bytes 4 0,
                 n_size = 36\<rparr>"
  let ?odd = "\<lparr>n_namesz = 5, n_descsz = 12, n_type = NT_AUXV, n_offset = 28,
                n_name = ''CORE'',
                n_desc = le_bytes 4 31 @ le_bytes 4 0xff4 @ le_bytes 4 0,
                n_size = 32\<rparr>"
  have ar: "arch_bytes (arch example_core) = 4"
    by (simp add: example_core_def)
  have le: "length (n_desc ?even) = n_descsz ?even"
    by simp
  have lo: "length (n_desc ?odd) = n_descsz ?odd"
    by simp
  show ?thesis
    using auxv_pairs_and_trailing_word [OF le, of 2 example_core Core_new]
      auxv_pairs_and_trailing_word [OF lo, of 1 example_core Core_new]
    by (simp add: ar)
qed

theorem auxv_trailing_word_counterexample:
  "map (\<lambda>n. (n_type n, n_descsz n, length (n_desc n)))
     (file_notes example_core_odd_auxv (segments example_core_odd_auxv))
     = [(NT_FILE, 8, 8), (NT_AUXV, 12, 12)]
   \<and> isl (Core_init linux_types example_core_odd_auxv)
   \<and> projl (Core_init linux_types example_core_odd_auxv) = EOFError"
  by code_simp



end
